theory Spec2Isabelle
  imports Main
begin

section \<open>Strings and arrays as JavaScript treats them\<close>

text \<open>
  Strings are lists of bytes: a string is held as its UTF-8 form.
  \<open>join\<close> is \<open>Array.prototype.join\<close> on an array of strings.
\<close>

fun join :: "string \<Rightarrow> string list \<Rightarrow> string" where
  "join sep [] = []"
| "join sep [x] = x"
| "join sep (x # y # ys) = x @ sep @ join sep (y # ys)"

text \<open>
  An array that is filled by index assignment (\<open>out[pos] = ...\<close>) can have holes; a hole
  reads as \<open>undefined\<close>, and \<open>join\<close> prints it as the empty string.
\<close>

type_synonym jsarray = "string option list"

definition js_set :: "jsarray \<Rightarrow> nat \<Rightarrow> string \<Rightarrow> jsarray" where
  "js_set xs i v =
     (if i < length xs then xs[i := Some v]
      else xs @ replicate (i - length xs) None @ [Some v])"

definition js_index :: "jsarray \<Rightarrow> nat \<Rightarrow> string option" where
  "js_index xs i = (if i < length xs then xs ! i else None)"

definition js_str :: "string option \<Rightarrow> string" where
  "js_str x = (case x of None \<Rightarrow> [] | Some s \<Rightarrow> s)"

definition js_join :: "string \<Rightarrow> jsarray \<Rightarrow> string" where
  "js_join sep xs = join sep (map js_str xs)"

text \<open>
  A string or \<open>undefined\<close> in a concatenation (\<open>'fn-' + def.identifier\<close>): \<open>undefined\<close>
  is printed as the word.
\<close>

definition to_string :: "string option \<Rightarrow> string" where
  "to_string x = (case x of None \<Rightarrow> ''undefined'' | Some s \<Rightarrow> s)"

text \<open>\<open>String(n)\<close> for a non-negative integer: its decimal digits.\<close>

definition digit :: "nat \<Rightarrow> char" where
  "digit d = ''0123456789'' ! d"

fun string_of_nat :: "nat \<Rightarrow> string" where
  "string_of_nat n =
     (if n < 10 then [digit n] else string_of_nat (n div 10) @ [digit (n mod 10)])"

declare string_of_nat.simps [simp del]

section \<open>Upper-casing\<close>

text \<open>
  \<open>String.prototype.toUpperCase\<close> replaces every code point of the string by its
  uppercase mapping in the Unicode character database, independently of the locale and
  of the context; the mapping of one code point can be several (U+00DF becomes \<open>SS\<close>).
  A string is held here as its UTF-8 bytes, so it is cut into the byte sequences of its
  code points first; a byte sequence that is not the UTF-8 form of a code point, which no
  JavaScript string gives, is left as it is.
\<close>

definition utf8_width :: "char \<Rightarrow> nat" where
  "utf8_width c =
     (let b = (of_char c :: int) in
      if b < 0xC0 then 1 else if b < 0xE0 then 2 else if b < 0xF0 then 3
      else if b < 0xF8 then 4 else 1)"

fun chunks :: "string \<Rightarrow> string list" where
  "chunks [] = []"
| "chunks (c # cs) = take (utf8_width c) (c # cs) # chunks (drop (utf8_width c - 1) cs)"

definition continuation :: "char \<Rightarrow> bool" where
  "continuation c = (0x80 \<le> (of_char c :: int) \<and> (of_char c :: int) < 0xC0)"

fun utf8_decode :: "string \<Rightarrow> int option" where
  "utf8_decode [a] = (if (of_char a :: int) < 0x80 then Some (of_char a) else None)"
| "utf8_decode [a, b] =
     (if continuation b then Some ((of_char a - 0xC0) * 64 + (of_char b - 0x80)) else None)"
| "utf8_decode [a, b, c] =
     (if continuation b \<and> continuation c
      then Some ((of_char a - 0xE0) * 4096 + (of_char b - 0x80) * 64 + (of_char c - 0x80))
      else None)"
| "utf8_decode [a, b, c, d] =
     (if continuation b \<and> continuation c \<and> continuation d
      then Some ((of_char a - 0xF0) * 262144 + (of_char b - 0x80) * 4096 +
                 (of_char c - 0x80) * 64 + (of_char d - 0x80))
      else None)"
| "utf8_decode _ = None"

definition utf8_encode :: "int \<Rightarrow> string" where
  "utf8_encode c =
     (if c < 0x80 then [char_of c]
      else if c < 0x800 then [char_of (0xC0 + c div 64), char_of (0x80 + c mod 64)]
      else if c < 0x10000
      then [char_of (0xE0 + c div 4096), char_of (0x80 + c div 64 mod 64),
            char_of (0x80 + c mod 64)]
      else [char_of (0xF0 + c div 262144), char_of (0x80 + c div 4096 mod 64),
            char_of (0x80 + c div 64 mod 64), char_of (0x80 + c mod 64)])"

text \<open>
  The uppercase mappings of Unicode 14.0 outside ASCII. \<open>upper_runs\<close> holds the
  mappings to one code point (UnicodeData.txt), as runs \<open>(first, last, step, target)\<close>:
  every code point of the run, \<open>step\<close> apart from \<open>first\<close>, maps to \<open>target\<close> plus its
  distance from \<open>first\<close>. \<open>upper_special\<close> holds the unconditional mappings to several
  code points (SpecialCasing.txt).
\<close>

definition upper_runs :: "(int \<times> int \<times> int \<times> int) list" where
  "upper_runs =
     [(181, 181, 1, 924), (224, 246, 1, 192), (248, 254, 1, 216), (255, 255, 1, 376),
      (257, 303, 2, 256), (305, 305, 1, 73), (307, 311, 2, 306), (314, 328, 2, 313),
      (331, 375, 2, 330), (378, 382, 2, 377), (383, 383, 1, 83), (384, 384, 1, 579),
      (387, 389, 2, 386), (392, 392, 1, 391), (396, 396, 1, 395), (402, 402, 1, 401),
      (405, 405, 1, 502), (409, 409, 1, 408), (410, 410, 1, 573), (414, 414, 1, 544),
      (417, 421, 2, 416), (424, 424, 1, 423), (429, 429, 1, 428), (432, 432, 1, 431),
      (436, 438, 2, 435), (441, 441, 1, 440), (445, 445, 1, 444), (447, 447, 1, 503),
      (453, 453, 1, 452), (454, 454, 1, 452), (456, 456, 1, 455), (457, 457, 1, 455),
      (459, 459, 1, 458), (460, 460, 1, 458), (462, 476, 2, 461), (477, 477, 1, 398),
      (479, 495, 2, 478), (498, 498, 1, 497), (499, 499, 1, 497), (501, 501, 1, 500),
      (505, 543, 2, 504), (547, 563, 2, 546), (572, 572, 1, 571), (575, 576, 1, 11390),
      (578, 578, 1, 577), (583, 591, 2, 582), (592, 592, 1, 11375), (593, 593, 1, 11373),
      (594, 594, 1, 11376), (595, 595, 1, 385), (596, 596, 1, 390), (598, 599, 1, 393),
      (601, 601, 1, 399), (603, 603, 1, 400), (604, 604, 1, 42923), (608, 608, 1, 403),
      (609, 609, 1, 42924), (611, 611, 1, 404), (613, 613, 1, 42893), (614, 614, 1, 42922),
      (616, 616, 1, 407), (617, 617, 1, 406), (618, 618, 1, 42926), (619, 619, 1, 11362),
      (620, 620, 1, 42925), (623, 623, 1, 412), (625, 625, 1, 11374), (626, 626, 1, 413),
      (629, 629, 1, 415), (637, 637, 1, 11364), (640, 640, 1, 422), (642, 642, 1, 42949),
      (643, 643, 1, 425), (647, 647, 1, 42929), (648, 648, 1, 430), (649, 649, 1, 580),
      (650, 651, 1, 433), (652, 652, 1, 581), (658, 658, 1, 439), (669, 669, 1, 42930),
      (670, 670, 1, 42928), (837, 837, 1, 921), (881, 883, 2, 880), (887, 887, 1, 886),
      (891, 893, 1, 1021), (940, 940, 1, 902), (941, 943, 1, 904), (945, 961, 1, 913),
      (962, 962, 1, 931), (963, 971, 1, 931), (972, 972, 1, 908), (973, 974, 1, 910),
      (976, 976, 1, 914), (977, 977, 1, 920), (981, 981, 1, 934), (982, 982, 1, 928),
      (983, 983, 1, 975), (985, 1007, 2, 984), (1008, 1008, 1, 922), (1009, 1009, 1, 929),
      (1010, 1010, 1, 1017), (1011, 1011, 1, 895), (1013, 1013, 1, 917), (1016, 1016, 1, 1015),
      (1019, 1019, 1, 1018), (1072, 1103, 1, 1040), (1104, 1119, 1, 1024), (1121, 1153, 2, 1120),
      (1163, 1215, 2, 1162), (1218, 1230, 2, 1217), (1231, 1231, 1, 1216), (1233, 1327, 2, 1232),
      (1377, 1414, 1, 1329), (4304, 4346, 1, 7312), (4349, 4351, 1, 7357), (5112, 5117, 1, 5104),
      (7296, 7296, 1, 1042), (7297, 7297, 1, 1044), (7298, 7298, 1, 1054), (7299, 7300, 1, 1057),
      (7301, 7301, 1, 1058), (7302, 7302, 1, 1066), (7303, 7303, 1, 1122),
      (7304, 7304, 1, 42570), (7545, 7545, 1, 42877), (7549, 7549, 1, 11363),
      (7566, 7566, 1, 42950), (7681, 7829, 2, 7680), (7835, 7835, 1, 7776),
      (7841, 7935, 2, 7840), (7936, 7943, 1, 7944), (7952, 7957, 1, 7960), (7968, 7975, 1, 7976),
      (7984, 7991, 1, 7992), (8000, 8005, 1, 8008), (8017, 8023, 2, 8025), (8032, 8039, 1, 8040),
      (8048, 8049, 1, 8122), (8050, 8053, 1, 8136), (8054, 8055, 1, 8154), (8056, 8057, 1, 8184),
      (8058, 8059, 1, 8170), (8060, 8061, 1, 8186), (8112, 8113, 1, 8120), (8126, 8126, 1, 921),
      (8144, 8145, 1, 8152), (8160, 8161, 1, 8168), (8165, 8165, 1, 8172), (8526, 8526, 1, 8498),
      (8560, 8575, 1, 8544), (8580, 8580, 1, 8579), (9424, 9449, 1, 9398),
      (11312, 11359, 1, 11264), (11361, 11361, 1, 11360), (11365, 11365, 1, 570),
      (11366, 11366, 1, 574), (11368, 11372, 2, 11367), (11379, 11379, 1, 11378),
      (11382, 11382, 1, 11381), (11393, 11491, 2, 11392), (11500, 11502, 2, 11499),
      (11507, 11507, 1, 11506), (11520, 11557, 1, 4256), (11559, 11559, 1, 4295),
      (11565, 11565, 1, 4301), (42561, 42605, 2, 42560), (42625, 42651, 2, 42624),
      (42787, 42799, 2, 42786), (42803, 42863, 2, 42802), (42874, 42876, 2, 42873),
      (42879, 42887, 2, 42878), (42892, 42892, 1, 42891), (42897, 42899, 2, 42896),
      (42900, 42900, 1, 42948), (42903, 42921, 2, 42902), (42933, 42947, 2, 42932),
      (42952, 42954, 2, 42951), (42961, 42961, 1, 42960), (42967, 42969, 2, 42966),
      (42998, 42998, 1, 42997), (43859, 43859, 1, 42931), (43888, 43967, 1, 5024),
      (65345, 65370, 1, 65313), (66600, 66639, 1, 66560), (66776, 66811, 1, 66736),
      (66967, 66977, 1, 66928), (66979, 66993, 1, 66940), (66995, 67001, 1, 66956),
      (67003, 67004, 1, 66964), (68800, 68850, 1, 68736), (71872, 71903, 1, 71840),
      (93792, 93823, 1, 93760), (125218, 125251, 1, 125184)]"

definition upper_special :: "(int \<times> int list) list" where
  "upper_special =
     [(223, [83, 83]), (329, [700, 78]), (496, [74, 780]), (912, [921, 776, 769]),
      (944, [933, 776, 769]), (1415, [1333, 1362]), (7830, [72, 817]), (7831, [84, 776]),
      (7832, [87, 778]), (7833, [89, 778]), (7834, [65, 702]), (8016, [933, 787]),
      (8018, [933, 787, 768]), (8020, [933, 787, 769]), (8022, [933, 787, 834]),
      (8064, [7944, 921]), (8065, [7945, 921]), (8066, [7946, 921]), (8067, [7947, 921]),
      (8068, [7948, 921]), (8069, [7949, 921]), (8070, [7950, 921]), (8071, [7951, 921]),
      (8072, [7944, 921]), (8073, [7945, 921]), (8074, [7946, 921]), (8075, [7947, 921]),
      (8076, [7948, 921]), (8077, [7949, 921]), (8078, [7950, 921]), (8079, [7951, 921]),
      (8080, [7976, 921]), (8081, [7977, 921]), (8082, [7978, 921]), (8083, [7979, 921]),
      (8084, [7980, 921]), (8085, [7981, 921]), (8086, [7982, 921]), (8087, [7983, 921]),
      (8088, [7976, 921]), (8089, [7977, 921]), (8090, [7978, 921]), (8091, [7979, 921]),
      (8092, [7980, 921]), (8093, [7981, 921]), (8094, [7982, 921]), (8095, [7983, 921]),
      (8096, [8040, 921]), (8097, [8041, 921]), (8098, [8042, 921]), (8099, [8043, 921]),
      (8100, [8044, 921]), (8101, [8045, 921]), (8102, [8046, 921]), (8103, [8047, 921]),
      (8104, [8040, 921]), (8105, [8041, 921]), (8106, [8042, 921]), (8107, [8043, 921]),
      (8108, [8044, 921]), (8109, [8045, 921]), (8110, [8046, 921]), (8111, [8047, 921]),
      (8114, [8122, 921]), (8115, [913, 921]), (8116, [902, 921]), (8118, [913, 834]),
      (8119, [913, 834, 921]), (8124, [913, 921]), (8130, [8138, 921]), (8131, [919, 921]),
      (8132, [905, 921]), (8134, [919, 834]), (8135, [919, 834, 921]), (8140, [919, 921]),
      (8146, [921, 776, 768]), (8147, [921, 776, 769]), (8150, [921, 834]),
      (8151, [921, 776, 834]), (8162, [933, 776, 768]), (8163, [933, 776, 769]),
      (8164, [929, 787]), (8166, [933, 834]), (8167, [933, 776, 834]), (8178, [8186, 921]),
      (8179, [937, 921]), (8180, [911, 921]), (8182, [937, 834]), (8183, [937, 834, 921]),
      (8188, [937, 921]), (64256, [70, 70]), (64257, [70, 73]), (64258, [70, 76]),
      (64259, [70, 70, 73]), (64260, [70, 70, 76]), (64261, [83, 84]), (64262, [83, 84]),
      (64275, [1348, 1350]), (64276, [1348, 1333]), (64277, [1348, 1339]), (64278, [1358, 1350]),
      (64279, [1348, 1341])]"

definition upper_code_point :: "int \<Rightarrow> int list" where
  "upper_code_point c =
     (if c < 0x80 then [if 97 \<le> c \<and> c \<le> 122 then c - 32 else c]
      else (case map_of upper_special c of
              Some us \<Rightarrow> us
            | None \<Rightarrow>
                (case find (\<lambda>(lo, hi, step, to). lo \<le> c \<and> c \<le> hi \<and> (c - lo) mod step = 0)
                        upper_runs of
                   Some (lo, hi, step, to) \<Rightarrow> [to + (c - lo)]
                 | None \<Rightarrow> [c])))"

definition upper_chunk :: "string \<Rightarrow> string" where
  "upper_chunk bs =
     (case utf8_decode bs of
        None \<Rightarrow> bs
      | Some c \<Rightarrow> concat (map utf8_encode (upper_code_point c)))"

definition toUpperCase :: "string \<Rightarrow> string" where
  "toUpperCase s = concat (map upper_chunk (chunks s))"

section \<open>The document tree\<close>

text \<open>
  An attribute value handed to the element builder: a string, a number, or
  \<open>null\<close>/\<open>undefined\<close>.
\<close>

datatype aval = ANull | AStr string | ANum int

text \<open>
  The fields of a node object. A field is optional: \<open>None\<close> is an absent field, which
  reads as \<open>undefined\<close>, and every compiler below says what the source does with it
  then. \<open>loose\<close> and \<open>ordered\<close> are read only for their truth value, so an absent one is
  \<open>False\<close>; \<open>referenceType\<close> is only compared with \<open>'shortcut'\<close>, so an absent one is
  any other string; \<open>attributes\<close> is set by the footnote section only. The
  source position is carried through opaquely by the source and is left out.
\<close>

record props =
  ntype :: string
  nvalue :: "string option"
  depth :: "nat option"
  ordered :: bool
  start :: "int option"
  loose :: bool
  lang :: "string option"
  align :: "aval list option"
  ident :: "string option"
  referenceType :: string
  href :: "string option"
  src :: "string option"
  title :: "string option"
  alt :: "string option"
  link :: "string option"
  attributes :: "(string \<times> aval) list"

datatype node = Node (props: props) (children: "node list option")

definition blank :: props where
  "blank = \<lparr>ntype = [], nvalue = None, depth = None, ordered = False, start = None,
     loose = False, lang = None, align = None, ident = None, referenceType = [],
     href = None, src = None, title = None, alt = None, link = None, attributes = []\<rparr>"

text \<open>The object literal \<open>{}\<close>.\<close>

definition empty_object :: node where
  "empty_object = Node blank None"

section \<open>Errors, compilation state, collaborators\<close>

text \<open>
  \<open>UnsupportedNode\<close> is the dispatcher's error; \<open>TypeError\<close> is what JavaScript raises
  when a property of \<open>undefined\<close> is read; \<open>StackExhausted\<close> ends a traversal that is
  nested deeper than the recursion budget.
\<close>

datatype error = UnsupportedNode string | TypeError | StackExhausted

text \<open>\<open>self.definitions\<close> and \<open>self.footnotes\<close>.\<close>

record cstate =
  definitions :: "string \<rightharpoonup> node"
  footnotes :: "node list"

text \<open>The state of a compiler object on which no root has been compiled yet.\<close>

definition init :: cstate where
  "init = \<lparr>definitions = Map.empty, footnotes = []\<rparr>"

type_synonym 'a result = "error + ('a \<times> cstate)"

type_synonym visitor = "node \<Rightarrow> node \<Rightarrow> cstate \<Rightarrow> string result"

text \<open>
  An argument of the element builder \<open>h(context, node, name, ...)\<close> after the tag name,
  as the call site passes it: nothing, a string, a boolean or an attribute object.
\<close>

datatype harg = Absent | Str string | Flag bool | Attrs "(string \<times> aval) list"

text \<open>
  The functions the compilers call but do not define: the element builder \<open>h\<close>
  (lib/h.js), \<open>this.encode\<close>, the packages \<open>trim\<close> (with \<open>trim.left\<close>) and \<open>detab\<close>,
  \<open>util.collapse\<close>, \<open>util.trimLines\<close>, \<open>util.normalizeURI\<close> (lib/util.js), and the
  option \<open>this.options.sanitize\<close>. The compilers are parametrised by them. The encoder
  and the URI normaliser are handed fields of a node as they are, absent or not.
\<close>

record collab =
  h :: "node option \<Rightarrow> string \<Rightarrow> harg \<Rightarrow> harg \<Rightarrow> harg \<Rightarrow> string"
  encode :: "string option \<Rightarrow> string"
  trim :: "string \<Rightarrow> string"
  trim_left :: "string \<Rightarrow> string"
  detab :: "string \<Rightarrow> string"
  collapse :: "string \<Rightarrow> string"
  trimLines :: "string \<Rightarrow> string"
  normalizeURI :: "string option \<Rightarrow> string"
  sanitize :: bool

section \<open>Walking the children\<close>

text \<open>
  \<open>all(parent)\<close>: the loop over \<open>parent.children\<close>, with \<open>self.visit\<close> as the
  parameter \<open>vis\<close>. Reading \<open>nodes.length\<close> of an absent child sequence raises.
\<close>

definition after_break :: "node option \<Rightarrow> bool" where
  "after_break prev =
     (case prev of
        None \<Rightarrow> False
      | Some p \<Rightarrow> ntype (props p) = ''break'' \<or>
          (ntype (props p) = ''escape'' \<and> nvalue (props p) = Some [CHR 0x0A]))"

fun all_loop ::
  "visitor \<Rightarrow> collab \<Rightarrow> node \<Rightarrow> node option \<Rightarrow> node list \<Rightarrow> string list \<Rightarrow> cstate
     \<Rightarrow> string list result" where
  "all_loop vis cb parent prev [] vals st = Inr (vals, st)"
| "all_loop vis cb parent prev (n # ns) vals st =
     (case vis n parent st of
        Inl e \<Rightarrow> Inl e
      | Inr (v, st') \<Rightarrow>
          all_loop vis cb parent (Some n) ns
            (if v \<noteq> [] then vals @ [if after_break prev then trim_left cb v else v]
             else vals) st')"

definition all_nodes :: "visitor \<Rightarrow> collab \<Rightarrow> node \<Rightarrow> cstate \<Rightarrow> string list result" where
  "all_nodes vis cb parent st =
     (case children parent of
        None \<Rightarrow> Inl TypeError
      | Some nodes \<Rightarrow> all_loop vis cb parent None nodes [] st)"

text \<open>\<open>this.all(node).join(sep)\<close>.\<close>

definition all_joined :: "visitor \<Rightarrow> collab \<Rightarrow> string \<Rightarrow> node \<Rightarrow> cstate \<Rightarrow> string result" where
  "all_joined vis cb sep parent st =
     (case all_nodes vis cb parent st of
        Inl e \<Rightarrow> Inl e
      | Inr (vals, st') \<Rightarrow> Inr (join sep vals, st'))"

section \<open>The definition index and the footnote store\<close>

text \<open>
  Modelled from the spec: the tree scan \<open>visit(node, type, callback)\<close> of the package
  mdast-util-visit, which is not part of the repository's sources. It calls the callback
  on every node of the given kind in the whole tree, in document order; \<open>collect\<close>
  returns those nodes in the order of the calls.
\<close>

fun collect :: "string \<Rightarrow> node \<Rightarrow> node list" where
  "collect t (Node p cs) =
     (if ntype p = t then [Node p cs] else []) @
     (case cs of None \<Rightarrow> [] | Some ns \<Rightarrow> concat (map (collect t) ns))"

text \<open>
  \<open>definitions[definition.identifier.toUpperCase()] = definition\<close>, per definition, in
  the order of the calls. Calling \<open>toUpperCase\<close> on an absent identifier raises. The
  object \<open>definitions\<close> is a map from keys to nodes: a key is an upper-cased string,
  and no property that an object inherits has such a name.
\<close>

fun index_definitions :: "node list \<Rightarrow> (string \<rightharpoonup> node) \<Rightarrow> error + (string \<rightharpoonup> node)" where
  "index_definitions [] m = Inr m"
| "index_definitions (d # ds) m =
     (case ident (props d) of
        None \<Rightarrow> Inl TypeError
      | Some i \<Rightarrow> index_definitions ds (m(toUpperCase i \<mapsto> d)))"

text \<open>\<open>self.definitions[node.identifier.toUpperCase()] || {}\<close>.\<close>

definition resolve :: "cstate \<Rightarrow> node \<Rightarrow> error + node" where
  "resolve st node =
     (case ident (props node) of
        None \<Rightarrow> Inl TypeError
      | Some i \<Rightarrow>
          Inr (case definitions st (toUpperCase i) of
                 None \<Rightarrow> empty_object
               | Some d \<Rightarrow> d))"

text \<open>
  The loop \<open>while (identifiers.indexOf(String(identifier)) !== -1) identifier++\<close> of
  \<open>footnote\<close>, over the identifiers of the stored records (the identifier of a record
  that has none is \<open>undefined\<close>, which no string equals). It ends because the decimal
  strings of different numbers differ, so only finitely many of them are in the list.
\<close>

function next_identifier :: "string option list \<Rightarrow> nat \<Rightarrow> nat" where
  "next_identifier identifiers i =
     (if Some (string_of_nat i) \<in> set identifiers then next_identifier identifiers (Suc i)
      else i)"
  by pat_completeness auto

text \<open>Different numbers have different decimal strings.\<close>

lemma digit_inj: "a < 10 \<Longrightarrow> b < 10 \<Longrightarrow> digit a = digit b \<Longrightarrow> a = b"
  unfolding digit_def
  by (simp add: less_Suc_eq eval_nat_numeral; elim disjE; simp)

lemma string_of_nat_nonempty: "string_of_nat n \<noteq> []"
  by (subst string_of_nat.simps) simp

lemma string_of_nat_inj: "string_of_nat a = string_of_nat b \<Longrightarrow> a = b"
proof (induction a arbitrary: b rule: string_of_nat.induct)
  case (1 n)
  show ?case
  proof (cases "n < 10")
    case True
    show ?thesis
    proof (cases "b < 10")
      case b: True
      from 1(2) True b have "digit n = digit b"
        by (simp add: string_of_nat.simps[of n] string_of_nat.simps[of b])
      then show ?thesis using True b digit_inj by blast
    next
      case b: False
      from 1(2) True b show ?thesis
        using string_of_nat_nonempty[of "b div 10"]
        by (simp add: string_of_nat.simps[of n] string_of_nat.simps[of b])
    qed
  next
    case False
    show ?thesis
    proof (cases "b < 10")
      case b: True
      from 1(2) False b show ?thesis
        using string_of_nat_nonempty[of "n div 10"]
        by (simp add: string_of_nat.simps[of n] string_of_nat.simps[of b])
    next
      case b: False
      from 1(2) False b have e: "string_of_nat (n div 10) = string_of_nat (b div 10)"
        and d: "digit (n mod 10) = digit (b mod 10)"
        by (simp_all add: string_of_nat.simps[of n] string_of_nat.simps[of b])
      from 1(1)[OF False e] have "n div 10 = b div 10" .
      moreover from d have "n mod 10 = b mod 10" by (intro digit_inj) simp_all
      ultimately show ?thesis by (metis div_mult_mod_eq)
    qed
  qed
qed

lemma finite_used: "finite {j. Some (string_of_nat j) \<in> set ids}"
proof -
  have "inj (\<lambda>j. Some (string_of_nat j))" by (rule injI) (simp add: string_of_nat_inj)
  then have "finite ((\<lambda>j. Some (string_of_nat j)) -` set ids)"
    by (intro finite_vimageI) simp_all
  then show ?thesis by (simp add: vimage_def)
qed

termination next_identifier
proof (relation "measure (\<lambda>(ids, i). card {j. i \<le> j \<and> Some (string_of_nat j) \<in> set ids})")
  show "wf (measure (\<lambda>(ids, i). card {j. i \<le> j \<and> Some (string_of_nat j) \<in> set ids}))"
    by simp
next
  fix identifiers :: "string option list" and i :: nat
  assume used: "Some (string_of_nat i) \<in> set identifiers"
  let ?A = "{j. Suc i \<le> j \<and> Some (string_of_nat j) \<in> set identifiers}"
  let ?B = "{j. i \<le> j \<and> Some (string_of_nat j) \<in> set identifiers}"
  have fin: "finite ?B" using finite_used[of identifiers] by (rule rev_finite_subset) auto
  have "i \<in> ?B" "i \<notin> ?A" using used by auto
  moreover have "?A \<subseteq> ?B" by auto
  ultimately have "?A \<subset> ?B" by blast
  then have "card ?A < card ?B" using fin by (intro psubset_card_mono)
  then show "((identifiers, Suc i), (identifiers, i))
      \<in> measure (\<lambda>(ids, i). card {j. i \<le> j \<and> Some (string_of_nat j) \<in> set ids})"
    by simp
qed

declare next_identifier.simps [simp del]

section \<open>The compilers\<close>

text \<open>
  Each compiler takes \<open>self.visit\<close> as the parameter \<open>vis\<close> and the state of the
  compilation, and returns its string with the state it leaves.
\<close>

definition attr_opt :: "string option \<Rightarrow> aval" where
  "attr_opt x = (case x of None \<Rightarrow> ANull | Some s \<Rightarrow> AStr s)"

text \<open>A string or \<open>undefined\<close> as the argument of \<open>h\<close>.\<close>

definition arg_opt :: "string option \<Rightarrow> harg" where
  "arg_opt x = (case x of None \<Rightarrow> Absent | Some s \<Rightarrow> Str s)"

definition footnoteReference :: "collab \<Rightarrow> node \<Rightarrow> string" where
  "footnoteReference cb node =
     (let identifier = ident (props node) in
      h cb (Some node) ''sup'' (Attrs [(''id'', AStr (''fnref-'' @ to_string identifier))])
        (Str (h cb (Some node) ''a''
               (Attrs [(''href'', AStr (''#fn-'' @ to_string identifier)),
                       (''class'', AStr ''footnote-ref'')])
               (arg_opt identifier) Absent))
        Absent)"

definition footnote :: "collab \<Rightarrow> node \<Rightarrow> cstate \<Rightarrow> string result" where
  "footnote cb node st =
     (let identifiers = map (\<lambda>d. ident (props d)) (footnotes st);
          identifier = string_of_nat (next_identifier identifiers 1)
      in Inr (footnoteReference cb
                (Node (blank\<lparr>ntype := ''footnoteReference'', ident := Some identifier\<rparr>) None),
              st\<lparr>footnotes := footnotes st @
                [Node (blank\<lparr>ntype := ''footnoteDefinition'', ident := Some identifier\<rparr>)
                   (children node)]\<rparr>))"

definition blockquote :: "visitor \<Rightarrow> collab \<Rightarrow> node \<Rightarrow> cstate \<Rightarrow> string result" where
  "blockquote vis cb node st =
     (case all_joined vis cb [CHR 0x0A] node st of
        Inl e \<Rightarrow> Inl e
      | Inr (s, st') \<Rightarrow> Inr (h cb (Some node) ''blockquote'' (Str s) (Flag True) Absent, st'))"

definition list_c :: "visitor \<Rightarrow> collab \<Rightarrow> node \<Rightarrow> cstate \<Rightarrow> string result" where
  "list_c vis cb node st =
     (case all_joined vis cb [CHR 0x0A] node st of
        Inl e \<Rightarrow> Inl e
      | Inr (s, st') \<Rightarrow>
          Inr (h cb (Some node) (if ordered (props node) then ''ol'' else ''ul'')
                 (Attrs [(''start'',
                    if start (props node) \<noteq> Some 1
                    then (case start (props node) of None \<Rightarrow> ANull | Some i \<Rightarrow> ANum i)
                    else ANull)])
                 (Str s) (Flag True), st'))"

text \<open>
  \<open>single\<close> of \<open>listItem\<close>. An array is truthy in JavaScript even when it is empty, so
  the last conjunct holds as soon as the sole child has a child sequence.
\<close>

definition single :: "node list \<Rightarrow> node \<Rightarrow> bool" where
  "single cs parent =
     (\<not> loose (props parent) \<and> length cs = 1 \<and> children (hd cs) \<noteq> None)"

definition listItem :: "visitor \<Rightarrow> collab \<Rightarrow> node \<Rightarrow> node \<Rightarrow> cstate \<Rightarrow> string result" where
  "listItem vis cb node parent st =
     (case children node of
        None \<Rightarrow> Inl TypeError
      | Some cs \<Rightarrow>
          (case all_joined vis cb (if single cs parent then [] else [CHR 0x0A])
                  (if single cs parent then hd cs else node) st of
             Inl e \<Rightarrow> Inl e
           | Inr (s, st') \<Rightarrow>
               Inr (h cb (Some node) ''li'' (Str s) (Flag (\<not> single cs parent)) Absent, st')))"

definition heading :: "visitor \<Rightarrow> collab \<Rightarrow> node \<Rightarrow> cstate \<Rightarrow> string result" where
  "heading vis cb node st =
     (case all_joined vis cb [] node st of
        Inl e \<Rightarrow> Inl e
      | Inr (s, st') \<Rightarrow>
          Inr (h cb (Some node)
                 (''h'' @ (case depth (props node) of
                             None \<Rightarrow> ''undefined''
                           | Some d \<Rightarrow> string_of_nat d))
                 (Str s) Absent Absent, st'))"

definition paragraph_c :: "visitor \<Rightarrow> collab \<Rightarrow> node \<Rightarrow> cstate \<Rightarrow> string result" where
  "paragraph_c vis cb node st =
     (case all_joined vis cb [] node st of
        Inl e \<Rightarrow> Inl e
      | Inr (s, st') \<Rightarrow>
          Inr (h cb (Some node) ''p'' (Str (trim cb (detab cb s))) (Flag False) Absent, st'))"

text \<open>
  \<open>FIRST_WORD = /^[^\ \t]+(?=[\ \t]|$)/\<close>: the longest prefix free of spaces and tabs,
  when it is not empty.
\<close>

definition first_word :: "string \<Rightarrow> string option" where
  "first_word s =
     (let w = takeWhile (\<lambda>c. c \<noteq> CHR '' '' \<and> c \<noteq> CHR 0x09) s
      in if w = [] then None else Some w)"

definition code_c :: "collab \<Rightarrow> node \<Rightarrow> string" where
  "code_c cb node =
     (let v = (case nvalue (props node) of
                 None \<Rightarrow> []
               | Some x \<Rightarrow> if x \<noteq> [] then detab cb (x @ [CHR 0x0A]) else []);
          language = (case lang (props node) of None \<Rightarrow> None | Some l \<Rightarrow> first_word l)
      in h cb (Some node) ''pre''
           (Str (h cb (Some node) ''code''
                  (Attrs [(''class'',
                     case language of None \<Rightarrow> ANull | Some l \<Rightarrow> AStr (''language-'' @ l))])
                  (Str (encode cb (Some v))) (Flag False)))
           (Flag False) Absent)"

text \<open>
  \<open>html\<close> returns \<open>node.value\<close> itself. Of an absent value that is \<open>undefined\<close>, which
  \<open>all\<close>, the only reader of what a compiler returns, drops as it drops the empty
  string; it is the empty string here.
\<close>

definition html :: "collab \<Rightarrow> node \<Rightarrow> string" where
  "html cb node =
     (if sanitize cb then encode cb (nvalue (props node)) else js_str (nvalue (props node)))"

definition rule :: "collab \<Rightarrow> node \<Rightarrow> string" where
  "rule cb node = h cb (Some node) ''hr'' Absent Absent Absent"

definition inlineCode :: "collab \<Rightarrow> node \<Rightarrow> string" where
  "inlineCode cb node =
     h cb (Some node) ''code'' (Str (collapse cb (encode cb (nvalue (props node)))))
       Absent Absent"

text \<open>\<open>strong\<close>, \<open>emphasis\<close> and \<open>strikethrough\<close> differ in the tag only.\<close>

definition inline_wrap ::
  "string \<Rightarrow> visitor \<Rightarrow> collab \<Rightarrow> node \<Rightarrow> cstate \<Rightarrow> string result" where
  "inline_wrap tag vis cb node st =
     (case all_joined vis cb [] node st of
        Inl e \<Rightarrow> Inl e
      | Inr (s, st') \<Rightarrow> Inr (h cb (Some node) tag (Str s) Absent Absent, st'))"

definition strong :: "visitor \<Rightarrow> collab \<Rightarrow> node \<Rightarrow> cstate \<Rightarrow> string result" where
  "strong = inline_wrap ''strong''"

definition emphasis :: "visitor \<Rightarrow> collab \<Rightarrow> node \<Rightarrow> cstate \<Rightarrow> string result" where
  "emphasis = inline_wrap ''em''"

definition strikethrough :: "visitor \<Rightarrow> collab \<Rightarrow> node \<Rightarrow> cstate \<Rightarrow> string result" where
  "strikethrough = inline_wrap ''del''"

definition hardBreak :: "collab \<Rightarrow> node \<Rightarrow> string" where
  "hardBreak cb node = h cb (Some node) ''br'' Absent Absent Absent @ [CHR 0x0A]"

definition link_c :: "visitor \<Rightarrow> collab \<Rightarrow> node \<Rightarrow> cstate \<Rightarrow> string result" where
  "link_c vis cb node st =
     (case all_joined vis cb [] node st of
        Inl e \<Rightarrow> Inl e
      | Inr (s, st') \<Rightarrow>
          Inr (h cb (Some node) ''a''
                 (Attrs [(''href'', AStr (normalizeURI cb (href (props node)))),
                         (''title'', attr_opt (title (props node)))])
                 (Str s) Absent, st'))"

definition image :: "collab \<Rightarrow> node \<Rightarrow> string" where
  "image cb node =
     h cb (Some node) ''img''
       (Attrs [(''src'', AStr (normalizeURI cb (src (props node)))),
               (''alt'', AStr (js_str (alt (props node)))),
               (''title'', attr_opt (title (props node)))])
       Absent Absent"

definition text_c :: "collab \<Rightarrow> node \<Rightarrow> string" where
  "text_c cb node = trimLines cb (encode cb (nvalue (props node)))"

definition escape :: "collab \<Rightarrow> node \<Rightarrow> string" where
  "escape cb node =
     (if nvalue (props node) = Some [CHR 0x0A] then hardBreak cb node else text_c cb node)"

definition ignore :: string where
  "ignore = []"

text \<open>
  \<open>failsafe(node, definition, context)\<close>. \<open>!definition.link\<close> holds for an absent and
  for an empty link; an absent \<open>alt\<close> is printed as \<open>undefined\<close> by the concatenation.
\<close>

definition truthy :: "string option \<Rightarrow> bool" where
  "truthy x = (case x of None \<Rightarrow> False | Some s \<Rightarrow> s \<noteq> [])"

definition failsafe :: "visitor \<Rightarrow> collab \<Rightarrow> node \<Rightarrow> node \<Rightarrow> cstate \<Rightarrow> string result" where
  "failsafe vis cb node definition st =
     (if referenceType (props node) = ''shortcut'' \<and> \<not> truthy (link (props definition))
      then (case (case children node of
                    Some cs \<Rightarrow> all_joined vis cb [] node st
                  | None \<Rightarrow> Inr (to_string (alt (props node)), st)) of
              Inl e \<Rightarrow> Inl e
            | Inr (r, st') \<Rightarrow>
                Inr ((if ntype (props node) = ''imageReference'' then ''!'' else []) @
                     ''['' @ r @ '']'', st'))
      else Inr ([], st))"

text \<open>\<open>def.link || ''\<close>: the link, or the empty string for an absent or empty one.\<close>

definition link_or_empty :: "node \<Rightarrow> string" where
  "link_or_empty def = (case link (props def) of None \<Rightarrow> [] | Some l \<Rightarrow> l)"

definition linkReference :: "visitor \<Rightarrow> collab \<Rightarrow> node \<Rightarrow> cstate \<Rightarrow> string result" where
  "linkReference vis cb node st =
     (case resolve st node of
        Inl e \<Rightarrow> Inl e
      | Inr def \<Rightarrow>
          (case failsafe vis cb node def st of
             Inl e \<Rightarrow> Inl e
           | Inr (f, st') \<Rightarrow>
               if f \<noteq> [] then Inr (f, st')
               else (case all_joined vis cb [] node st' of
                       Inl e \<Rightarrow> Inl e
                     | Inr (s, st'') \<Rightarrow>
                         Inr (h cb (Some node) ''a''
                                (Attrs [(''href'', AStr (normalizeURI cb (Some (link_or_empty def)))),
                                        (''title'', attr_opt (title (props def)))])
                                (Str s) Absent, st''))))"

definition imageReference :: "visitor \<Rightarrow> collab \<Rightarrow> node \<Rightarrow> cstate \<Rightarrow> string result" where
  "imageReference vis cb node st =
     (case resolve st node of
        Inl e \<Rightarrow> Inl e
      | Inr def \<Rightarrow>
          (case failsafe vis cb node def st of
             Inl e \<Rightarrow> Inl e
           | Inr (f, st') \<Rightarrow>
               if f \<noteq> [] then Inr (f, st')
               else Inr (h cb (Some node) ''img''
                           (Attrs [(''src'', AStr (normalizeURI cb (Some (link_or_empty def)))),
                                   (''alt'', AStr (js_str (alt (props node)))),
                                   (''title'', attr_opt (title (props def)))])
                           Absent Absent, st')))"

subsection \<open>Tables\<close>

text \<open>
  The inner loop \<open>while (pos--)\<close> of \<open>table\<close>, for one row: \<open>pos\<close> runs from
  \<open>alignLength - 1\<close> down to 0 and fills \<open>out[pos]\<close>. \<open>row\<close> is \<open>rows[index].children\<close>;
  reading \<open>row[pos]\<close> of an absent one raises, and \<open>row[pos]\<close> beyond the row's end is
  \<open>undefined\<close>.
\<close>

fun cells_loop ::
  "visitor \<Rightarrow> collab \<Rightarrow> aval list \<Rightarrow> string \<Rightarrow> node list option \<Rightarrow> nat \<Rightarrow> jsarray \<Rightarrow> cstate
     \<Rightarrow> jsarray result" where
  "cells_loop vis cb al name row 0 out st = Inr (out, st)"
| "cells_loop vis cb al name row (Suc pos) out st =
     (case row of
        None \<Rightarrow> Inl TypeError
      | Some cells \<Rightarrow>
          (let cell = (if pos < length cells then Some (cells ! pos) else None) in
           case (case cell of
                   None \<Rightarrow> Inr ([], st)
                 | Some c \<Rightarrow> all_joined vis cb [CHR 0x0A] c st) of
             Inl e \<Rightarrow> Inl e
           | Inr (content, st') \<Rightarrow>
               cells_loop vis cb al name row pos
                 (js_set out pos
                    (h cb cell name
                       (Attrs [(''align'', if pos < length al then al ! pos else ANull)])
                       (Str content) Absent))
                 st'))"

text \<open>The outer loop \<open>while (index--)\<close>: from the last row to the first.\<close>

fun rows_loop ::
  "visitor \<Rightarrow> collab \<Rightarrow> aval list \<Rightarrow> node list \<Rightarrow> nat \<Rightarrow> jsarray \<Rightarrow> cstate
     \<Rightarrow> jsarray result" where
  "rows_loop vis cb al rows 0 result st = Inr (result, st)"
| "rows_loop vis cb al rows (Suc index) result st =
     (case cells_loop vis cb al (if index = 0 then ''th'' else ''td'')
             (children (rows ! index)) (length al) [] st of
        Inl e \<Rightarrow> Inl e
      | Inr (out, st') \<Rightarrow>
          rows_loop vis cb al rows index
            (js_set result index
               (h cb (Some (rows ! index)) ''tr'' (Str (js_join [CHR 0x0A] out))
                  (Flag True) Absent))
            st')"

text \<open>
  \<open>table\<close> reads \<open>rows.length\<close> and \<open>align.length\<close> before its loops: a table without
  child sequence or without alignment list raises.
\<close>

definition table :: "visitor \<Rightarrow> collab \<Rightarrow> node \<Rightarrow> cstate \<Rightarrow> string result" where
  "table vis cb node st =
     (case children node of
        None \<Rightarrow> Inl TypeError
      | Some rows \<Rightarrow>
          (case align (props node) of
             None \<Rightarrow> Inl TypeError
           | Some al \<Rightarrow>
               (case rows_loop vis cb al rows (length rows) [] st of
                  Inl e \<Rightarrow> Inl e
                | Inr (result, st') \<Rightarrow>
                    Inr (h cb (Some node) ''table''
                           (Str (h cb (Some node) ''thead'' (arg_opt (js_index result 0))
                                   (Flag True) Absent @
                                 [CHR 0x0A] @
                                 h cb (Some node) ''tbody''
                                   (Str (js_join [CHR 0x0A] (drop 1 result)))
                                   (Flag True) Absent))
                           (Flag True) Absent, st'))))"

subsection \<open>Footnotes and the root\<close>

text \<open>
  The list item \<open>generateFootnotes\<close> builds for one stored record: the record's children
  with the back-reference link appended. The link's label is U+21A9, three bytes.
\<close>

definition backref :: "string option \<Rightarrow> node" where
  "backref identifier =
     Node (blank\<lparr>ntype := ''link'', href := Some (''#fnref-'' @ to_string identifier),
                   attributes := [(''class'', AStr ''footnote-backref'')]\<rparr>)
       (Some [Node (blank\<lparr>ntype := ''text'',
                            nvalue := Some [CHR 0xE2, CHR 0x86, CHR 0xA9]\<rparr>) None])"

definition footnote_item :: "node \<Rightarrow> node list \<Rightarrow> node" where
  "footnote_item def cs =
     Node (blank\<lparr>ntype := ''listItem'',
                   attributes := [(''id'', AStr (''fn-'' @ to_string (ident (props def))))]\<rparr>)
       (Some (cs @ [backref (ident (props def))]))"

text \<open>
  The loop of \<open>generateFootnotes\<close> over the records the store held when the function
  was entered (\<open>length\<close> is read once). \<open>def.children.concat\<close> raises when the record
  has no child sequence.
\<close>

fun generate_loop ::
  "visitor \<Rightarrow> collab \<Rightarrow> node list \<Rightarrow> string list \<Rightarrow> cstate \<Rightarrow> string list result" where
  "generate_loop vis cb [] results st = Inr (results, st)"
| "generate_loop vis cb (def # defs) results st =
     (case children def of
        None \<Rightarrow> Inl TypeError
      | Some cs \<Rightarrow>
          (case listItem vis cb (footnote_item def cs) empty_object st of
             Inl e \<Rightarrow> Inl e
           | Inr (r, st') \<Rightarrow> generate_loop vis cb defs (results @ [r]) st'))"

definition generateFootnotes :: "visitor \<Rightarrow> collab \<Rightarrow> cstate \<Rightarrow> string result" where
  "generateFootnotes vis cb st =
     (if footnotes st = [] then Inr ([], st)
      else (case generate_loop vis cb (footnotes st) [] st of
              Inl e \<Rightarrow> Inl e
            | Inr (results, st') \<Rightarrow>
                Inr (h cb None ''div'' (Attrs [(''class'', AStr ''footnotes'')])
                       (Str (h cb None ''hr'' Absent Absent Absent @ [CHR 0x0A] @
                             h cb None ''ol'' (Str (join [CHR 0x0A] results)) (Flag True) Absent))
                       (Flag True) @ [CHR 0x0A], st')))"

text \<open>
  \<open>root\<close> replaces both parts of the state, fills them from the tree, compiles the
  children and appends the footnotes. \<open>prepass\<close> is the state after the two scans of
  the tree; the scan for the definitions raises on a definition without identifier.
\<close>

definition prepass :: "node \<Rightarrow> error + cstate" where
  "prepass node =
     (case index_definitions (collect ''definition'' node) Map.empty of
        Inl e \<Rightarrow> Inl e
      | Inr m \<Rightarrow> Inr \<lparr>definitions = m, footnotes = collect ''footnoteDefinition'' node\<rparr>)"

definition root :: "visitor \<Rightarrow> collab \<Rightarrow> node \<Rightarrow> cstate \<Rightarrow> string result" where
  "root vis cb node st =
     (case prepass node of
        Inl e \<Rightarrow> Inl e
      | Inr st0 \<Rightarrow>
          (case all_joined vis cb [CHR 0x0A] node st0 of
             Inl e \<Rightarrow> Inl e
           | Inr (result, st') \<Rightarrow>
               (case generateFootnotes vis cb st' of
                  Inl e \<Rightarrow> Inl e
                | Inr (fs, st'') \<Rightarrow>
                    Inr ((if result \<noteq> [] then result @ [CHR 0x0A] else []) @ fs, st''))))"

section \<open>The compiler table and the dispatcher\<close>

text \<open>
  The functions of the module, and the kinds under which \<open>visitors\<close> registers them
  (lines 774 to 804 of the source, in that order). The two helpers \<open>all\<close> and
  \<open>generateFootnotes\<close>, which the module exports on the same object, are not compilers
  of a node kind and are not in the table.
\<close>

datatype compiler =
  Ignore | Footnote | Root | Blockquote | ListC | ListItem | Paragraph | Heading | Table
  | Code | Html | Rule | InlineCode | Strong | Emphasis | HardBreak | Link | Image
  | FootnoteReference | LinkReference | ImageReference | Strikethrough | Text | Escape

definition visitors :: "(string \<times> compiler) list" where
  "visitors =
     [(''yaml'', Ignore), (''definition'', Ignore), (''footnoteDefinition'', Ignore),
      (''footnote'', Footnote), (''root'', Root), (''blockquote'', Blockquote),
      (''list'', ListC), (''listItem'', ListItem), (''paragraph'', Paragraph),
      (''heading'', Heading), (''table'', Table), (''code'', Code), (''html'', Html),
      (''horizontalRule'', Rule), (''inlineCode'', InlineCode), (''strong'', Strong),
      (''emphasis'', Emphasis), (''break'', HardBreak), (''link'', Link), (''image'', Image),
      (''footnoteReference'', FootnoteReference), (''linkReference'', LinkReference),
      (''imageReference'', ImageReference), (''delete'', Strikethrough), (''text'', Text),
      (''escape'', Escape)]"

fun run :: "compiler \<Rightarrow> visitor \<Rightarrow> collab \<Rightarrow> node \<Rightarrow> node \<Rightarrow> cstate \<Rightarrow> string result" where
  "run Ignore vis cb node parent st = Inr (ignore, st)"
| "run Footnote vis cb node parent st = footnote cb node st"
| "run Root vis cb node parent st = root vis cb node st"
| "run Blockquote vis cb node parent st = blockquote vis cb node st"
| "run ListC vis cb node parent st = list_c vis cb node st"
| "run ListItem vis cb node parent st = listItem vis cb node parent st"
| "run Paragraph vis cb node parent st = paragraph_c vis cb node st"
| "run Heading vis cb node parent st = heading vis cb node st"
| "run Table vis cb node parent st = table vis cb node st"
| "run Code vis cb node parent st = Inr (code_c cb node, st)"
| "run Html vis cb node parent st = Inr (html cb node, st)"
| "run Rule vis cb node parent st = Inr (rule cb node, st)"
| "run InlineCode vis cb node parent st = Inr (inlineCode cb node, st)"
| "run Strong vis cb node parent st = strong vis cb node st"
| "run Emphasis vis cb node parent st = emphasis vis cb node st"
| "run HardBreak vis cb node parent st = Inr (hardBreak cb node, st)"
| "run Link vis cb node parent st = link_c vis cb node st"
| "run Image vis cb node parent st = Inr (image cb node, st)"
| "run FootnoteReference vis cb node parent st = Inr (footnoteReference cb node, st)"
| "run LinkReference vis cb node parent st = linkReference vis cb node st"
| "run ImageReference vis cb node parent st = imageReference vis cb node st"
| "run Strikethrough vis cb node parent st = strikethrough vis cb node st"
| "run Text vis cb node parent st = Inr (text_c cb node, st)"
| "run Escape vis cb node parent st = Inr (escape cb node, st)"

text \<open>
  Modelled from the spec: the dispatcher \<open>self.visit(node, parent)\<close>, which the module
  calls and does not define. It looks the node's kind up in the compiler table and
  invokes the compiler found; a kind with no registered compiler fails with the
  Unsupported-Node error naming the kind.
\<close>

definition dispatch :: "visitor \<Rightarrow> collab \<Rightarrow> visitor" where
  "dispatch vis cb node parent st =
     (case map_of visitors (ntype (props node)) of
        None \<Rightarrow> Inl (UnsupportedNode (ntype (props node)))
      | Some c \<Rightarrow> run c vis cb node parent st)"

text \<open>
  \<open>self.visit\<close> calls the compilers, which call \<open>self.visit\<close> on nodes further down:
  \<open>visit k\<close> is the dispatcher with room for \<open>k\<close> nested calls.
\<close>

primrec visit :: "nat \<Rightarrow> collab \<Rightarrow> visitor" where
  "visit 0 cb = (\<lambda>node parent st. Inl StackExhausted)"
| "visit (Suc k) cb = dispatch (visit k cb) cb"

text \<open>
  Modelled from the spec: the driver, which calls the root compiler once per tree, on
  a compiler object that has no state yet. \<open>k\<close> is the room for nested visits.
\<close>

definition compile :: "nat \<Rightarrow> collab \<Rightarrow> node \<Rightarrow> string result" where
  "compile k cb tree = root (visit k cb) cb tree init"

section \<open>The external collaborators, for running the compiler\<close>

text \<open>
  The compilers above are parametrised by their collaborators. The definitions of this
  section give one concrete set of them, so that compilations can be evaluated.
\<close>

definition is_space :: "char \<Rightarrow> bool" where
  "is_space c = (c = CHR '' '' \<or> c = CHR 0x09 \<or> c = CHR 0x0A \<or> c = CHR 0x0D)"

text \<open>
  Modelled from the spec: the encoder \<open>this.encode\<close>, which escapes the reserved
  characters for text and attribute context. An absent value has no characters.
\<close>

definition encode_char :: "char \<Rightarrow> string" where
  "encode_char c =
     (if c = CHR ''&'' then ''&amp;''
      else if c = CHR ''<'' then ''&lt;''
      else if c = CHR ''>'' then ''&gt;''
      else if c = CHR 0x22 then ''&quot;''
      else [c])"

definition encode_spec :: "string option \<Rightarrow> string" where
  "encode_spec v = concat (map encode_char (js_str v))"

text \<open>Modelled from the spec: the full trim (package \<open>trim\<close>) and its left half.\<close>

definition trim_left_spec :: "string \<Rightarrow> string" where
  "trim_left_spec s = dropWhile is_space s"

definition trim_spec :: "string \<Rightarrow> string" where
  "trim_spec s = rev (dropWhile is_space (rev (dropWhile is_space s)))"

text \<open>
  Modelled from the spec: tab expansion to a fixed tab width (package \<open>detab\<close>), here 4:
  a tab becomes the spaces up to the next tab stop of its line.
\<close>

fun detab_from :: "nat \<Rightarrow> string \<Rightarrow> string" where
  "detab_from col [] = []"
| "detab_from col (c # cs) =
     (if c = CHR 0x09 then replicate (4 - col mod 4) CHR '' '' @ detab_from 0 cs
      else if c = CHR 0x0A then c # detab_from 0 cs
      else c # detab_from (Suc col) cs)"

definition detab_spec :: "string \<Rightarrow> string" where
  "detab_spec s = detab_from 0 s"

text \<open>
  Modelled from the spec: \<open>util.collapse\<close> (lib/util.js), the collapse of every run of
  white space to a single space.
\<close>

fun collapse_spec :: "string \<Rightarrow> string" where
  "collapse_spec [] = []"
| "collapse_spec [c] = [if is_space c then CHR '' '' else c]"
| "collapse_spec (c # d # cs) =
     (if is_space c \<and> is_space d then collapse_spec (d # cs)
      else (if is_space c then CHR '' '' else c) # collapse_spec (d # cs))"

text \<open>
  Modelled from the spec: \<open>util.trimLines\<close> (lib/util.js), the line-boundary-only trim,
  which ``strips only the first/last line's edges, not interior lines'': the white space
  at the two edges of the first line and of the last line of the value is stripped, and
  the lines between them stay as they are.
\<close>

fun split_lines :: "string \<Rightarrow> string list" where
  "split_lines [] = [[]]"
| "split_lines (c # cs) =
     (if c = CHR 0x0A then [] # split_lines cs
      else (case split_lines cs of [] \<Rightarrow> [[c]] | l # ls \<Rightarrow> (c # l) # ls))"

fun trim_outer_lines :: "string list \<Rightarrow> string list" where
  "trim_outer_lines [] = []"
| "trim_outer_lines [l] = [trim_spec l]"
| "trim_outer_lines (l # m # ls) = trim_spec l # butlast (m # ls) @ [trim_spec (last (m # ls))]"

definition trim_lines_spec :: "string \<Rightarrow> string" where
  "trim_lines_spec s = join [CHR 0x0A] (trim_outer_lines (split_lines s))"

text \<open>
  Modelled from the spec: the URI normaliser \<open>util.normalizeURI\<close> (lib/util.js), which
  escapes a raw URI for use in \<open>href\<close> and \<open>src\<close>; here the characters that cannot
  stand in a URI as they are. An absent URI has no characters.
\<close>

definition uri_char :: "char \<Rightarrow> string" where
  "uri_char c =
     (if c = CHR '' '' then ''%20''
      else if c = CHR 0x22 then ''%22''
      else if c = CHR ''<'' then ''%3C''
      else if c = CHR ''>'' then ''%3E''
      else [c])"

definition normalize_uri_spec :: "string option \<Rightarrow> string" where
  "normalize_uri_spec v = concat (map uri_char (js_str v))"

text \<open>
  Modelled from the spec: the element builder \<open>h\<close> (lib/h.js). The arguments after the
  tag name are an optional attribute mapping, the content and the block-layout flag; an
  absent, null or empty attribute value omits the attribute, the others are escaped;
  the attributes of the source node are added; the block flag puts the content on lines
  of its own; without content the element is the childless void form.
\<close>

definition string_of_int :: "int \<Rightarrow> string" where
  "string_of_int i = (if i < 0 then ''-'' @ string_of_nat (nat (- i)) else string_of_nat (nat i))"

definition render_attr :: "string \<times> aval \<Rightarrow> string" where
  "render_attr kv =
     (case snd kv of
        ANull \<Rightarrow> []
      | AStr v \<Rightarrow>
          if v = [] then []
          else '' '' @ fst kv @ ''='' @ [CHR 0x22] @ encode_spec (Some v) @ [CHR 0x22]
      | ANum i \<Rightarrow> '' '' @ fst kv @ ''='' @ [CHR 0x22] @ string_of_int i @ [CHR 0x22])"

definition h_spec :: "node option \<Rightarrow> string \<Rightarrow> harg \<Rightarrow> harg \<Rightarrow> harg \<Rightarrow> string" where
  "h_spec node name a4 a5 a6 =
     (let attrs = (case a4 of Attrs as \<Rightarrow> as | _ \<Rightarrow> []);
          content = (case a4 of Attrs as \<Rightarrow> a5 | _ \<Rightarrow> a4);
          block = ((case a4 of Attrs as \<Rightarrow> a6 | _ \<Rightarrow> a5) = Flag True);
          opening = ''<'' @ name @
            concat (map render_attr
              (attrs @ (case node of None \<Rightarrow> [] | Some n \<Rightarrow> attributes (props n)))) @ ''>''
      in case content of
           Str c \<Rightarrow>
             opening @ (if block then [CHR 0x0A] else []) @ c @
             (if block \<and> c \<noteq> [] then [CHR 0x0A] else []) @ ''</'' @ name @ ''>''
         | _ \<Rightarrow> opening)"

definition cb_spec :: collab where
  "cb_spec = \<lparr>h = h_spec, encode = encode_spec, trim = trim_spec, trim_left = trim_left_spec,
     detab = detab_spec, collapse = collapse_spec, trimLines = trim_lines_spec,
     normalizeURI = normalize_uri_spec, sanitize = False\<rparr>"

text \<open>Builders for the nodes of examples.\<close>

definition leaf :: "string \<Rightarrow> string \<Rightarrow> node" where
  "leaf kind v = Node (blank\<lparr>ntype := kind, nvalue := Some v\<rparr>) None"

definition parent_node :: "string \<Rightarrow> node list \<Rightarrow> node" where
  "parent_node kind cs = Node (blank\<lparr>ntype := kind\<rparr>) (Some cs)"

text \<open>What a compilation returns, without the state it leaves.\<close>

definition output_of :: "'a result \<Rightarrow> error + 'a" where
  "output_of r = (case r of Inl e \<Rightarrow> Inl e | Inr (s, st) \<Rightarrow> Inr s)"

text \<open>The identifiers of the footnote store a compilation leaves.\<close>

definition store_identifiers :: "string result \<Rightarrow> error + string option list" where
  "store_identifiers r =
     (case r of Inl e \<Rightarrow> Inl e | Inr (s, st) \<Rightarrow> Inr (map (\<lambda>d. ident (props d)) (footnotes st)))"

section \<open>Notions used in the statements\<close>

subsection \<open>List items: the tight unwrap rule\<close>

text \<open>A tight and a loose list, as the parent of a list item.\<close>

definition tight_list :: node where
  "tight_list = Node (blank\<lparr>ntype := ''list'', loose := False\<rparr>) None"

definition loose_list :: node where
  "loose_list = Node (blank\<lparr>ntype := ''list'', loose := True\<rparr>) None"

subsection \<open>The footnote section\<close>

text \<open>
  The element of the footnote section around its list items: a rule and an ordered
  list of the items, inside a container classed \<open>footnotes\<close>.
\<close>

definition footnotes_element :: "collab \<Rightarrow> string list \<Rightarrow> string" where
  "footnotes_element cb items =
     h cb None ''div'' (Attrs [(''class'', AStr ''footnotes'')])
       (Str (h cb None ''hr'' Absent Absent Absent @ [CHR 0x0A] @
             h cb None ''ol'' (Str (join [CHR 0x0A] items)) (Flag True) Absent))
       (Flag True)"

text \<open>
  The list items of the footnote section, one per record and in the order of the
  records, with the state threaded from one to the next. The item of a record is the
  list-item element around the record's children and the back reference, each
  compiled, joined by newlines, with block layout. The item of a record without
  children is the element around the compiled children of the back reference, without
  block layout.
\<close>

fun footnote_items :: "visitor \<Rightarrow> collab \<Rightarrow> node list \<Rightarrow> cstate \<Rightarrow> string list result" where
  "footnote_items vis cb [] st = Inr ([], st)"
| "footnote_items vis cb (def # defs) st =
     (case children def of
        None \<Rightarrow> Inl TypeError
      | Some cs \<Rightarrow>
          (case (if cs = [] then all_joined vis cb [] (backref (ident (props def))) st
                 else all_joined vis cb [CHR 0x0A] (footnote_item def cs) st) of
             Inl e \<Rightarrow> Inl e
           | Inr (s, st') \<Rightarrow>
               (case footnote_items vis cb defs st' of
                  Inl e \<Rightarrow> Inl e
                | Inr (items, st'') \<Rightarrow>
                    Inr (h cb (Some (footnote_item def cs)) ''li'' (Str s) (Flag (cs \<noteq> []))
                           Absent # items, st''))))"

text \<open>A state whose footnote store holds the given records.\<close>

definition store_with :: "node list \<Rightarrow> cstate" where
  "store_with ds = init\<lparr>footnotes := ds\<rparr>"

subsection \<open>The trailing newline of the output\<close>

text \<open>A string that ends with a newline which no other newline precedes.\<close>

definition ends_with_one_newline :: "string \<Rightarrow> bool" where
  "ends_with_one_newline s =
     (case rev s of
        [] \<Rightarrow> False
      | c # t \<Rightarrow> c = CHR 0x0A \<and> (case t of [] \<Rightarrow> True | d # u \<Rightarrow> d \<noteq> CHR 0x0A))"

subsection \<open>Tables: the rows and cells of the output\<close>

text \<open>
  The table compiler fills its arrays from the last index to the first. What follows
  describes its result in document order: first the strings compiled from the cells
  (the compilation itself runs over the rows, and over the columns of a row, from the
  last to the first, which is the order in which the state is threaded), then the
  layout of those strings, by row and column index.
\<close>

definition cell_at :: "node list option \<Rightarrow> nat \<Rightarrow> node option" where
  "cell_at row j =
     (case row of
        None \<Rightarrow> None
      | Some cells \<Rightarrow> if j < length cells then Some (cells ! j) else None)"

definition align_at :: "aval list \<Rightarrow> nat \<Rightarrow> aval" where
  "align_at al j = (if j < length al then al ! j else ANull)"

fun row_contents ::
  "visitor \<Rightarrow> collab \<Rightarrow> node list option \<Rightarrow> nat \<Rightarrow> cstate \<Rightarrow> string list result" where
  "row_contents vis cb row 0 st = Inr ([], st)"
| "row_contents vis cb row (Suc pos) st =
     (case row of
        None \<Rightarrow> Inl TypeError
      | Some cells \<Rightarrow>
          (case (case cell_at row pos of
                   None \<Rightarrow> Inr ([], st)
                 | Some c \<Rightarrow> all_joined vis cb [CHR 0x0A] c st) of
             Inl e \<Rightarrow> Inl e
           | Inr (content, st') \<Rightarrow>
               (case row_contents vis cb row pos st' of
                  Inl e \<Rightarrow> Inl e
                | Inr (cs, st'') \<Rightarrow> Inr (cs @ [content], st''))))"

fun table_contents ::
  "visitor \<Rightarrow> collab \<Rightarrow> nat \<Rightarrow> node list \<Rightarrow> nat \<Rightarrow> cstate \<Rightarrow> string list list result" where
  "table_contents vis cb n rows 0 st = Inr ([], st)"
| "table_contents vis cb n rows (Suc index) st =
     (case row_contents vis cb (children (rows ! index)) n st of
        Inl e \<Rightarrow> Inl e
      | Inr (cs, st') \<Rightarrow>
          (case table_contents vis cb n rows index st' of
             Inl e \<Rightarrow> Inl e
           | Inr (css, st'') \<Rightarrow> Inr (css @ [cs], st'')))"

definition cell_layout ::
  "collab \<Rightarrow> aval list \<Rightarrow> string \<Rightarrow> node list option \<Rightarrow> nat \<Rightarrow> string \<Rightarrow> string" where
  "cell_layout cb al name row j content =
     h cb (cell_at row j) name (Attrs [(''align'', align_at al j)]) (Str content) Absent"

definition row_layout :: "collab \<Rightarrow> aval list \<Rightarrow> node list \<Rightarrow> nat \<Rightarrow> string list \<Rightarrow> string" where
  "row_layout cb al rows i cs =
     h cb (Some (rows ! i)) ''tr''
       (Str (join [CHR 0x0A]
          (map (\<lambda>j. cell_layout cb al (if i = 0 then ''th'' else ''td'') (children (rows ! i)) j
                       (cs ! j))
             [0..<length al])))
       (Flag True) Absent"

definition table_layout ::
  "collab \<Rightarrow> node \<Rightarrow> aval list \<Rightarrow> node list \<Rightarrow> string list list \<Rightarrow> string" where
  "table_layout cb node al rows css =
     h cb (Some node) ''table''
       (Str (h cb (Some node) ''thead''
               (Str (row_layout cb al rows 0 (css ! 0))) (Flag True) Absent @
             [CHR 0x0A] @
             h cb (Some node) ''tbody''
               (Str (join [CHR 0x0A]
                  (map (\<lambda>i. row_layout cb al rows i (css ! i)) [1..<length rows])))
               (Flag True) Absent))
       (Flag True) Absent"

text \<open>An array filled up with holes to the length \<open>n\<close>, as an index assignment beyond its end does.\<close>

definition pad :: "jsarray \<Rightarrow> nat \<Rightarrow> jsarray" where
  "pad xs n = xs @ replicate (n - length xs) None"

text \<open>
  A row cut to its first \<open>n\<close> cells, and a table whose rows are cut to the length of its
  alignment list.
\<close>

definition cut_row :: "nat \<Rightarrow> node \<Rightarrow> node" where
  "cut_row n row = Node (props row) (map_option (take n) (children row))"

definition cut_table :: "node \<Rightarrow> node" where
  "cut_table node =
     (case align (props node) of
        None \<Rightarrow> node
      | Some al \<Rightarrow> Node (props node) (map_option (map (cut_row (length al))) (children node)))"

text \<open>
  The element builder is handed the source node for its position and its attributes:
  it reads the fields of the node, not its children.
\<close>

definition reads_fields_only :: "collab \<Rightarrow> bool" where
  "reads_fields_only cb =
     (\<forall>a b name x y z. props a = props b \<longrightarrow>
        h cb (Some a) name x y z = h cb (Some b) name x y z)"

text \<open>
  A table of two columns whose second row has one cell only, and one whose second row
  has three cells.
\<close>

definition wide_tbl :: node where
  "wide_tbl = Node (blank\<lparr>ntype := ''table'', align := Some [AStr ''left'', ANull]\<rparr>)
     (Some [parent_node ''tableRow'' [parent_node ''tableCell'' [leaf ''text'' ''x''],
                                     parent_node ''tableCell'' [leaf ''text'' ''y'']],
            parent_node ''tableRow'' [parent_node ''tableCell'' [leaf ''text'' ''a''],
                                     parent_node ''tableCell'' [leaf ''text'' ''b''],
                                     parent_node ''tableCell'' [leaf ''text'' ''c'']]])"

definition tbl :: node where
  "tbl = Node (blank\<lparr>ntype := ''table'', align := Some [AStr ''left'', AStr ''right'']\<rparr>)
     (Some [parent_node ''tableRow'' [parent_node ''tableCell'' [leaf ''text'' ''a''],
                                     parent_node ''tableCell'' [leaf ''text'' ''b'']],
            parent_node ''tableRow'' [parent_node ''tableCell'' [leaf ''text'' ''c'']]])"

subsection \<open>Text nodes\<close>

text \<open>
  A value of one line with no white space at its two ends, and a trim that leaves every
  such value as it is: a trim that strips white space only where a line begins or ends
  has nothing to strip from it.
\<close>

definition plain_line :: "string \<Rightarrow> bool" where
  "plain_line s =
     (CHR 0x0A \<notin> set s \<and> (s = [] \<or> (\<not> is_space (hd s) \<and> \<not> is_space (last s))))"

definition line_boundary_trim :: "(string \<Rightarrow> string) \<Rightarrow> bool" where
  "line_boundary_trim f = (\<forall>s. plain_line s \<longrightarrow> f s = s)"

subsection \<open>References\<close>

text \<open>Builders for definition and reference nodes.\<close>

definition def_node :: "string \<Rightarrow> string \<Rightarrow> node" where
  "def_node i l =
     Node (blank\<lparr>ntype := ''definition'', ident := Some i, link := Some l\<rparr>) None"

definition ref_node :: "string \<Rightarrow> string \<Rightarrow> string \<Rightarrow> node list \<Rightarrow> node" where
  "ref_node kind i t cs =
     Node (blank\<lparr>ntype := kind, ident := Some i, referenceType := t\<rparr>) (Some cs)"

text \<open>The bracketed source form the failsafe prints.\<close>

definition bracketed :: "visitor \<Rightarrow> collab \<Rightarrow> node \<Rightarrow> cstate \<Rightarrow> string result" where
  "bracketed vis cb node st =
     (case (case children node of
              Some cs \<Rightarrow> all_joined vis cb [] node st
            | None \<Rightarrow> Inr (to_string (alt (props node)), st)) of
        Inl e \<Rightarrow> Inl e
      | Inr (r, st') \<Rightarrow>
          Inr ((if ntype (props node) = ''imageReference'' then ''!'' else []) @
               ''['' @ r @ '']'', st'))"

text \<open>A tree with a definition whose link is empty, and a shortcut reference to it.\<close>

definition empty_link_tree :: node where
  "empty_link_tree = parent_node ''root''
     [parent_node ''paragraph''
        [ref_node ''linkReference'' ''x'' ''shortcut'' [leaf ''text'' ''x'']],
      Node (blank\<lparr>ntype := ''definition'', ident := Some ''x'', link := Some [],
                    title := Some ''T''\<rparr>) None]"

subsection \<open>The definition index\<close>

text \<open>
  The definition a reference resolves to, said without the index: the definition node
  of the tree, the last one in document order, whose identifier satisfies \<open>P\<close>, and
  the empty object when there is none.
\<close>

definition named :: "(string \<Rightarrow> bool) \<Rightarrow> node \<Rightarrow> bool" where
  "named P d = (case ident (props d) of None \<Rightarrow> False | Some j \<Rightarrow> P j)"

definition last_definition :: "(string \<Rightarrow> bool) \<Rightarrow> node \<Rightarrow> node" where
  "last_definition P tree =
     (case find (named P) (rev (collect ''definition'' tree)) of
        None \<Rightarrow> empty_object
      | Some d \<Rightarrow> d)"

text \<open>
  Two ASCII strings that are equal up to case: of the same length, with the same letter
  at every place, in either case.
\<close>

definition ascii :: "string \<Rightarrow> bool" where
  "ascii s = (\<forall>c \<in> set s. (of_char c :: int) < 0x80)"

definition letter_pairs :: "(char \<times> char) list" where
  "letter_pairs = zip ''abcdefghijklmnopqrstuvwxyz'' ''ABCDEFGHIJKLMNOPQRSTUVWXYZ''"

definition same_letter :: "char \<Rightarrow> char \<Rightarrow> bool" where
  "same_letter c d = (c = d \<or> (c, d) \<in> set letter_pairs \<or> (d, c) \<in> set letter_pairs)"

definition same_up_to_case :: "string \<Rightarrow> string \<Rightarrow> bool" where
  "same_up_to_case a b = list_all2 same_letter a b"

text \<open>What upper-casing does to one ASCII character.\<close>

definition ascii_upper :: "char \<Rightarrow> char" where
  "ascii_upper c =
     char_of (if 97 \<le> (of_char c :: int) \<and> (of_char c :: int) \<le> 122 then of_char c - 32
              else (of_char c :: int))"

text \<open>
  A tree with two definitions that share an identifier up to case, and one whose
  definition and reference differ in the case of U+00E9.
\<close>

definition two_definitions :: node where
  "two_definitions = parent_node ''root''
     [parent_node ''paragraph'' [ref_node ''linkReference'' ''Foo'' ''full'' [leaf ''text'' ''x'']],
      def_node ''foo'' ''http://a'',
      parent_node ''blockquote'' [def_node ''FOO'' ''http://b'']]"

definition accent_tree :: node where
  "accent_tree = parent_node ''root''
     [def_node [CHR 0xC3, CHR 0x89] ''http://e'',
      parent_node ''paragraph''
        [ref_node ''linkReference'' [CHR 0xC3, CHR 0xA9] ''full'' [leaf ''text'' ''x'']]]"

subsection \<open>How a compilation changes the state\<close>

text \<open>The child sequence of a node, empty when it has none; the identifiers of the store.\<close>

definition kids :: "node \<Rightarrow> node list" where
  "kids n = (case children n of None \<Rightarrow> [] | Some cs \<Rightarrow> cs)"

definition store_ids :: "cstate \<Rightarrow> string option list" where
  "store_ids st = map (\<lambda>d. ident (props d)) (footnotes st)"

text \<open>
  \<open>least_unused used i\<close>: \<open>i\<close> is the string form of the smallest positive integer whose
  string form is not in \<open>used\<close>. That integer is at most one more than the length of
  \<open>used\<close>.
\<close>

definition least_unused :: "string option list \<Rightarrow> string \<Rightarrow> bool" where
  "least_unused used i =
     (\<exists>k \<in> {1..Suc (length used)}.
        i = string_of_nat k \<and> Some i \<notin> set used \<and>
        (\<forall>j \<in> {1..<k}. Some (string_of_nat j) \<in> set used))"

text \<open>
  \<open>allocated_from used new\<close>: the identifiers \<open>new\<close> were allocated one after the other,
  each the least unused one for the identifiers in the store when it was allocated.
\<close>

fun allocated_from :: "string option list \<Rightarrow> string option list \<Rightarrow> bool" where
  "allocated_from used [] = True"
| "allocated_from used (x # xs) =
     ((case x of None \<Rightarrow> False | Some i \<Rightarrow> least_unused used i) \<and>
      allocated_from (used @ [x]) xs)"

text \<open>
  \<open>extends Q st st'\<close>: from \<open>st\<close> to \<open>st'\<close> the definition index is unchanged and the
  footnote store has only grown, at its end, by records with freshly allocated
  identifiers that satisfy \<open>Q\<close>.
\<close>

definition extends :: "(node \<Rightarrow> bool) \<Rightarrow> cstate \<Rightarrow> cstate \<Rightarrow> bool" where
  "extends Q st st' =
     (definitions st' = definitions st \<and>
      (\<exists>new. footnotes st' = footnotes st @ new \<and>
             allocated_from (store_ids st) (map (\<lambda>d. ident (props d)) new) \<and>
             (\<forall>r \<in> set new. Q r)))"

text \<open>
  \<open>good N Q vis\<close>: whenever the visitor returns on a node that satisfies \<open>N\<close>, it
  has extended the state.
\<close>

definition good :: "(node \<Rightarrow> bool) \<Rightarrow> (node \<Rightarrow> bool) \<Rightarrow> visitor \<Rightarrow> bool" where
  "good N Q vis =
     (\<forall>n p st v st'. N n \<longrightarrow> vis n p st = Inr (v, st') \<longrightarrow> extends Q st st')"

text \<open>
  What the argument needs of the nodes visited (\<open>N\<close>) and of the records stored
  (\<open>Q\<close>): a visited node is not a root and its children are visited nodes; the record
  made of a visited inline footnote is a stored record; the children of a stored record, and
  the back reference added to them, are visited nodes.
\<close>

definition sound :: "(node \<Rightarrow> bool) \<Rightarrow> (node \<Rightarrow> bool) \<Rightarrow> bool" where
  "sound N Q =
     ((\<forall>n. N n \<longrightarrow> ntype (props n) \<noteq> ''root'' \<and> (\<forall>c \<in> set (kids n). N c)) \<and>
      (\<forall>n p. N n \<and> ntype (props n) = ''footnote'' \<longrightarrow> Q (Node p (children n))) \<and>
      (\<forall>r. Q r \<longrightarrow> (\<forall>c \<in> set (kids r). N c)) \<and>
      (\<forall>i. N (backref i)))"

subsection \<open>The footnote store after a compilation\<close>

text \<open>
  A node that is not a root and has no root below it. A structurally valid tree has its
  only root at the top; a root further down would replace the store when it is
  compiled.
\<close>

fun noroot :: "node \<Rightarrow> bool" where
  "noroot (Node p cs) =
     (ntype p \<noteq> ''root'' \<and> (case cs of None \<Rightarrow> True | Some ns \<Rightarrow> \<forall>n \<in> set ns. noroot n))"

text \<open>A tree with an explicit footnote definition named 2 and two inline footnotes.\<close>

definition fdef_node :: "string \<Rightarrow> node list \<Rightarrow> node" where
  "fdef_node i cs =
     Node (blank\<lparr>ntype := ''footnoteDefinition'', ident := Some i\<rparr>) (Some cs)"

definition footnotes_tree :: node where
  "footnotes_tree = parent_node ''root''
     [fdef_node ''2'' [parent_node ''paragraph'' [leaf ''text'' ''e'']],
      parent_node ''paragraph''
        [parent_node ''footnote'' [leaf ''text'' ''a''],
         parent_node ''footnote'' [leaf ''text'' ''b'']]]"

subsection \<open>Trees that compile\<close>

text \<open>
  The structurally valid trees of the kinds that have a compiler. A node is looked at
  in the role it has in the tree: an ordinary node, which the dispatcher visits, a row
  of a table, or a cell of a row (the table compiler walks rows and cells itself; their
  kinds have no compiler and need none). An ordinary node has a registered kind other
  than root; the kinds whose compiler reads the child sequence have one; a definition
  and a reference have an identifier and a table has an alignment list; a row is a
  \<open>tableRow\<close> with a child sequence, and a cell is any node but a root with a child
  sequence.

  A list item is compiled by the tight unwrap rule when its parent is not loose, and
  then the children of its only child are visited in place of that child. When the only
  child is a table these are the rows, which have no compiler: under a parent that is
  not loose, the only child of a list item is not a table with rows. \<open>valid r l n\<close>
  takes as \<open>l\<close> the loose flag of the parent the node is visited under.
\<close>

datatype role = AsNode | AsRow | AsCell

definition container_kinds :: "string list" where
  "container_kinds =
     [''blockquote'', ''list'', ''listItem'', ''paragraph'', ''heading'', ''strong'',
      ''emphasis'', ''delete'', ''link'', ''linkReference'', ''footnote'',
      ''footnoteDefinition'']"

definition identified_kinds :: "string list" where
  "identified_kinds = [''definition'', ''linkReference'', ''imageReference'']"

text \<open>
  The loose flag under which the children of a node are visited: the node's own, since
  it is their parent then. The children of a footnote and of a footnote definition are
  visited as the children of a list item of the footnote section, which is not loose.
\<close>

definition inner :: "props \<Rightarrow> bool" where
  "inner p = (loose p \<and> ntype p \<noteq> ''footnote'' \<and> ntype p \<noteq> ''footnoteDefinition'')"

fun valid :: "role \<Rightarrow> bool \<Rightarrow> node \<Rightarrow> bool" where
  "valid r l (Node p cs) =
     (case r of
        AsRow \<Rightarrow>
          ntype p = ''tableRow'' \<and>
          (case cs of None \<Rightarrow> False | Some ns \<Rightarrow> \<forall>n \<in> set ns. valid AsCell (inner p) n)
      | AsCell \<Rightarrow>
          ntype p \<noteq> ''root'' \<and> (ntype p = ''definition'' \<longrightarrow> ident p \<noteq> None) \<and>
          (case cs of None \<Rightarrow> False | Some ns \<Rightarrow> \<forall>n \<in> set ns. valid AsNode (inner p) n)
      | AsNode \<Rightarrow>
          if ntype p = ''table''
          then align p \<noteq> None \<and>
               (case cs of None \<Rightarrow> False | Some ns \<Rightarrow> \<forall>n \<in> set ns. valid AsRow (inner p) n)
          else ntype p \<noteq> ''root'' \<and> map_of visitors (ntype p) \<noteq> None \<and>
               (ntype p \<in> set container_kinds \<longrightarrow> cs \<noteq> None) \<and>
               (ntype p \<in> set identified_kinds \<longrightarrow> ident p \<noteq> None) \<and>
               (ntype p = ''listItem'' \<and> \<not> l \<longrightarrow>
                  (case cs of
                     Some [c] \<Rightarrow> ntype (props c) = ''table'' \<longrightarrow> children c = Some []
                   | _ \<Rightarrow> True)) \<and>
               (case cs of None \<Rightarrow> True | Some ns \<Rightarrow> \<forall>n \<in> set ns. valid AsNode (inner p) n))"

text \<open>The height of a node: the number of nested visits its compilation needs at most.\<close>

fun height :: "node \<Rightarrow> nat" where
  "height (Node p cs) =
     Suc (case cs of None \<Rightarrow> 0 | Some ns \<Rightarrow> foldr max (map height ns) 0)"

text \<open>A tree is valid when it is a root with a child sequence of valid ordinary nodes.\<close>

definition valid_tree :: "node \<Rightarrow> bool" where
  "valid_tree tree =
     (ntype (props tree) = ''root'' \<and>
      (case children tree of
         None \<Rightarrow> False
       | Some cs \<Rightarrow> list_all (valid AsNode (inner (props tree))) cs))"

text \<open>
  \<open>succeeds k vis\<close>: the visitor returns on every ordinary node of height at most \<open>k\<close>
  that is valid under the parent it is visited with, whatever the state.
\<close>

definition succeeds :: "nat \<Rightarrow> visitor \<Rightarrow> bool" where
  "succeeds k vis =
     (\<forall>n p st. valid AsNode (loose (props p)) n \<longrightarrow> height n \<le> k \<longrightarrow>
        (\<exists>v st'. vis n p st = Inr (v, st')))"

text \<open>The records of the store whose children are valid and within the budget.\<close>

definition valid_record :: "nat \<Rightarrow> node \<Rightarrow> bool" where
  "valid_record k r =
     (case children r of
        None \<Rightarrow> False
      | Some cs \<Rightarrow> \<forall>c \<in> set cs. valid AsNode False c \<and> height c \<le> k)"

text \<open>The nodes, in any role, that are valid and of height at most \<open>k\<close>.\<close>

definition valid_below :: "nat \<Rightarrow> node \<Rightarrow> bool" where
  "valid_below k n = ((\<exists>r l. valid r l n) \<and> height n \<le> k)"

text \<open>
  A list item of a loose list whose only child is a table, the cell of the table being a
  paragraph; and a document with a heading, a hard break, an inline footnote, a rule, a
  list, a table and code.
\<close>

definition loose_item_table :: node where
  "loose_item_table = parent_node ''root''
     [Node (blank\<lparr>ntype := ''list'', loose := True\<rparr>)
        (Some [parent_node ''listItem''
           [Node (blank\<lparr>ntype := ''table'', align := Some [AStr ''left'']\<rparr>)
              (Some [parent_node ''tableRow''
                       [parent_node ''paragraph'' [leaf ''text'' ''a'']]])]])]"


definition sample_document :: node where
  "sample_document = parent_node ''root''
     [Node (blank\<lparr>ntype := ''heading'', depth := Some 2\<rparr>)
        (Some [leaf ''text'' ''Title'']),
      parent_node ''paragraph''
        [leaf ''text'' ''a'', leaf ''break'' [], leaf ''text'' ''  b'',
         parent_node ''footnote'' [leaf ''text'' ''note'']],
      leaf ''horizontalRule'' [],
      Node (blank\<lparr>ntype := ''list'', ordered := True, start := Some 3\<rparr>)
        (Some [parent_node ''listItem'' [parent_node ''paragraph'' [leaf ''text'' ''foo'']]]),
      tbl,
      Node (blank\<lparr>ntype := ''code'', nvalue := Some ''x'',
                    lang := Some ''js highlight-lines''\<rparr>) None]"


subsection \<open>The inline footnotes a compilation reaches\<close>

text \<open>
  The definition a reference resolves to in the index \<open>D\<close>: the empty object when the
  index has none under the upper-cased identifier.
\<close>

definition lookup :: "(string \<rightharpoonup> node) \<Rightarrow> node \<Rightarrow> node" where
  "lookup D n =
     (case ident (props n) of
        None \<Rightarrow> empty_object
      | Some i \<Rightarrow> (case D (toUpperCase i) of None \<Rightarrow> empty_object | Some d \<Rightarrow> d))"

text \<open>
  \<open>walked D p n\<close>: the nodes whose children the compiler of \<open>n\<close> visits when \<open>n\<close> is
  compiled under the parent \<open>p\<close>, in the order of the visits. The compilers that call
  \<open>all\<close> on their node visit the node's own children; a list item visits the children of
  its only child when the tight unwrap rule applies; an image reference visits its
  children only on the failsafe path; a table visits the children of its cells, from the
  last row to the first and in each row from the last column of the alignment list to
  the first. The other compilers visit nothing.
\<close>

definition walked :: "(string \<rightharpoonup> node) \<Rightarrow> node \<Rightarrow> node \<Rightarrow> node list" where
  "walked D p n =
     (if ntype (props n) \<in> set [''blockquote'', ''list'', ''paragraph'', ''heading'',
          ''strong'', ''emphasis'', ''delete'', ''link'', ''linkReference'']
      then [n]
      else if ntype (props n) = ''listItem''
      then [if single (kids n) p then hd (kids n) else n]
      else if ntype (props n) = ''imageReference''
      then (if referenceType (props n) = ''shortcut'' \<and>
               \<not> truthy (link (props (lookup D n))) \<and> children n \<noteq> None
            then [n] else [])
      else if ntype (props n) = ''table''
      then concat (map (\<lambda>row. rev (take (case align (props n) of
                                             None \<Rightarrow> 0
                                           | Some al \<Rightarrow> length al) (kids row)))
                     (rev (kids n)))
      else [])"

lemma foldr_max_ge: "x \<in> set xs \<Longrightarrow> x \<le> foldr max xs (0::nat)"
  by (induction xs) (auto simp: max_def)

lemma height_kids: "c \<in> set (kids n) \<Longrightarrow> height c < height n"
proof (cases n)
  case (Node p cs)
  assume "c \<in> set (kids n)"
  with Node obtain ns where cs: "cs = Some ns" and c: "c \<in> set ns"
    by (auto simp: kids_def split: option.splits)
  from c have "height c \<in> set (map height ns)" by simp
  then have "height c \<le> foldr max (map height ns) 0" by (rule foldr_max_ge)
  with Node cs show ?thesis by simp
qed

lemma walked_cases:
  assumes "m \<in> set (walked D p n)"
  shows "m = n \<or> m \<in> set (kids n) \<or> (\<exists>row \<in> set (kids n). m \<in> set (kids row))"
proof -
  have hd_kid: "single (kids n) p \<Longrightarrow> hd (kids n) \<in> set (kids n)"
    by (cases "kids n") (auto simp: single_def)
  have "walked D p n = [n] \<or> (walked D p n = [hd (kids n)] \<and> single (kids n) p) \<or>
        walked D p n = [] \<or>
        walked D p n =
          concat (map (\<lambda>row. rev (take (case align (props n) of
                                            None \<Rightarrow> 0
                                          | Some al \<Rightarrow> length al) (kids row)))
                    (rev (kids n)))"
    unfolding walked_def by simp
  then consider (self) "walked D p n = [n]"
    | (item) "walked D p n = [hd (kids n)]" "single (kids n) p"
    | (none) "walked D p n = []"
    | (cells) "walked D p n =
        concat (map (\<lambda>row. rev (take (case align (props n) of
                                          None \<Rightarrow> 0
                                        | Some al \<Rightarrow> length al) (kids row)))
                  (rev (kids n)))"
    by blast
  then show ?thesis
  proof cases
    case self
    with assms show ?thesis by simp
  next
    case item
    with assms hd_kid show ?thesis by simp
  next
    case none
    with assms show ?thesis by simp
  next
    case cells
    with assms obtain row a where "row \<in> set (kids n)" and "m \<in> set (take a (kids row))"
      by auto
    then show ?thesis by (auto dest: in_set_takeD)
  qed
qed

lemma walked_height: "m \<in> set (walked D p n) \<Longrightarrow> height m \<le> height n"
proof -
  assume "m \<in> set (walked D p n)"
  from walked_cases[OF this] show ?thesis
  proof (elim disjE bexE)
    assume "m = n"
    then show ?thesis by simp
  next
    assume "m \<in> set (kids n)"
    from height_kids[OF this] show ?thesis by simp
  next
    fix row assume "row \<in> set (kids n)" and "m \<in> set (kids row)"
    from height_kids[OF this(1)] height_kids[OF this(2)] show ?thesis by simp
  qed
qed

text \<open>
  \<open>reach D p n\<close>: the inline footnotes the dispatcher reaches when it visits \<open>n\<close> under
  the parent \<open>p\<close>, in the order it reaches them. An inline footnote is reached and not
  entered: its compiler appends a record and visits nothing.
\<close>

function reach :: "(string \<rightharpoonup> node) \<Rightarrow> node \<Rightarrow> node \<Rightarrow> node list" where
  "reach D p n =
     (if ntype (props n) = ''footnote'' then [n]
      else concat (map (\<lambda>m. concat (map (reach D m) (kids m))) (walked D p n)))"
  by pat_completeness auto

termination reach
proof (relation "measure (\<lambda>(D, p, n). height n)")
  show "wf (measure (\<lambda>(D, p, n). height n))" by simp
next
  fix D :: "string \<rightharpoonup> node" and p n m c :: node
  assume "m \<in> set (walked D p n)" and "c \<in> set (kids m)"
  from height_kids[OF this(2)] walked_height[OF this(1)]
  show "((D, m, c), (D, p, n)) \<in> measure (\<lambda>(D, p, n). height n)" by simp
qed

declare reach.simps [simp del]

text \<open>
  The inline footnotes reached from the children of a node, which are visited with that
  node as their parent.
\<close>

definition reach_below :: "(string \<rightharpoonup> node) \<Rightarrow> node \<Rightarrow> node list" where
  "reach_below D m = concat (map (reach D m) (kids m))"

text \<open>
  The inline footnotes a compilation of the tree reaches. The walk over the children of
  the root reaches some; then the footnote section compiles the children of the records
  the store holds when the section is begun, which are the explicit definitions and the
  records of the walk, each as the children of a list item under a parent that is not
  loose. The children of a record of the walk are those of the footnote it was made of.
\<close>

definition index_of :: "node \<Rightarrow> string \<rightharpoonup> node" where
  "index_of tree = (case prepass tree of Inl e \<Rightarrow> Map.empty | Inr st \<Rightarrow> definitions st)"

definition reached_in_walk :: "node \<Rightarrow> node list" where
  "reached_in_walk tree = reach_below (index_of tree) tree"

definition reached_in_section :: "node \<Rightarrow> node list" where
  "reached_in_section tree =
     concat (map (\<lambda>r. concat (map (reach (index_of tree) empty_object) (kids r)))
               (collect ''footnoteDefinition'' tree @ reached_in_walk tree))"

definition reached :: "node \<Rightarrow> node list" where
  "reached tree = reached_in_walk tree @ reached_in_section tree"

text \<open>The records of the store after a compilation that returns.\<close>

definition store :: "string result \<Rightarrow> error + node list" where
  "store r = (case r of Inl e \<Rightarrow> Inl e | Inr (s, st) \<Rightarrow> Inr (footnotes st))"

text \<open>
  \<open>grows fs st st'\<close>: from \<open>st\<close> to \<open>st'\<close> the definition index is unchanged and the
  store has grown, at its end, by one footnote definition record per node of \<open>fs\<close>, in
  that order, each with the children of its node and with the least identifier unused
  when it was appended.
\<close>

definition grows :: "node list \<Rightarrow> cstate \<Rightarrow> cstate \<Rightarrow> bool" where
  "grows fs st st' =
     (definitions st' = definitions st \<and>
      (\<exists>new. footnotes st' = footnotes st @ new \<and>
             map children new = map children fs \<and>
             list_all (\<lambda>r. ntype (props r) = ''footnoteDefinition'') new \<and>
             allocated_from (store_ids st) (map (\<lambda>d. ident (props d)) new)))"

text \<open>
  \<open>tracks D vis\<close>: whenever the visitor returns on a node without a root in it, in a
  state whose index is \<open>D\<close>, the store has grown by the records of the footnotes reached
  from the node.
\<close>

definition tracks :: "(string \<rightharpoonup> node) \<Rightarrow> visitor \<Rightarrow> bool" where
  "tracks D vis =
     (\<forall>n p st v st'. noroot n \<longrightarrow> definitions st = D \<longrightarrow> vis n p st = Inr (v, st') \<longrightarrow>
        grows (reach D p n) st st')"

text \<open>
  Trees for the footnote store: a tight list item whose only child is an inline
  footnote, and one whose only child is an explicit footnote definition with an inline
  footnote in it.
\<close>

definition item_footnote :: node where
  "item_footnote = parent_node ''root''
     [parent_node ''list''
        [parent_node ''listItem'' [parent_node ''footnote'' [leaf ''text'' ''x'']]]]"

definition item_definition :: node where
  "item_definition = parent_node ''root''
     [parent_node ''list''
        [parent_node ''listItem''
           [fdef_node ''a'' [parent_node ''footnote'' [leaf ''text'' ''x'']]]]]"

text \<open>
  The store a compilation of the tree with the explicit definition named 2 leaves; two
  explicit definitions with one identifier; three inline footnotes nested in one
  another.
\<close>

definition footnotes_tree_store :: "node list" where
  "footnotes_tree_store =
     [fdef_node ''2'' [parent_node ''paragraph'' [leaf ''text'' ''e'']],
      fdef_node ''1'' [leaf ''text'' ''a''],
      fdef_node ''3'' [leaf ''text'' ''b'']]"

definition twice_defined :: node where
  "twice_defined = parent_node ''root'' [fdef_node ''a'' [], fdef_node ''a'' []]"

definition nested_footnotes :: node where
  "nested_footnotes = parent_node ''root''
     [parent_node ''paragraph''
        [parent_node ''footnote''
           [parent_node ''footnote''
              [parent_node ''footnote'' [leaf ''text'' ''x'']]]]]"
section \<open>The identifier allocator\<close>

lemma next_identifier_unused: "Some (string_of_nat (next_identifier ids i)) \<notin> set ids"
  by (induction ids i rule: next_identifier.induct) (subst next_identifier.simps, simp)

lemma next_identifier_ge: "i \<le> next_identifier ids i"
  by (induction ids i rule: next_identifier.induct) (subst next_identifier.simps, simp add: Suc_leD)

lemma next_identifier_least:
  "i \<le> j \<Longrightarrow> j < next_identifier ids i \<Longrightarrow> Some (string_of_nat j) \<in> set ids"
proof (induction ids i rule: next_identifier.induct)
  case (1 ids i)
  show ?case
  proof (cases "Some (string_of_nat i) \<in> set ids")
    case True
    show ?thesis
    proof (cases "j = i")
      case True
      with \<open>Some (string_of_nat i) \<in> set ids\<close> show ?thesis by simp
    next
      case False
      with 1 True show ?thesis by (simp add: next_identifier.simps[of ids i])
    qed
  next
    case False
    with 1 show ?thesis by (simp add: next_identifier.simps[of ids i])
  qed
qed

section \<open>List items: the tight unwrap rule\<close>

lemma single_iff:
  "single cs parent \<longleftrightarrow>
     \<not> loose (props parent) \<and> (\<exists>c gs. cs = [c] \<and> children c = Some gs)"
  by (cases cs) (auto simp: single_def)

lemma listItem_single:
  "children node = Some cs \<Longrightarrow> single cs parent \<Longrightarrow>
   listItem vis cb node parent st =
     (case all_joined vis cb [] (hd cs) st of
        Inl e \<Rightarrow> Inl e
      | Inr (s, st') \<Rightarrow> Inr (h cb (Some node) ''li'' (Str s) (Flag False) Absent, st'))"
  by (simp add: listItem_def split: sum.splits)

lemma listItem_not_single:
  "children node = Some cs \<Longrightarrow> \<not> single cs parent \<Longrightarrow>
   listItem vis cb node parent st =
     (case all_joined vis cb [CHR 0x0A] node st of
        Inl e \<Rightarrow> Inl e
      | Inr (s, st') \<Rightarrow> Inr (h cb (Some node) ''li'' (Str s) (Flag True) Absent, st'))"
  by (simp add: listItem_def split: sum.splits)

text \<open>
  C4, as stated, fails: the unwrap path does not need the sole child's child sequence to
  be non-empty. Under a tight list, an item whose sole child is a paragraph with an
  empty child sequence is rendered through the unwrap path (no paragraph element, no
  block layout); the claim sends it to the other path, which is what the same item gives
  under a loose list.
\<close>

theorem listItem_empty_child_counterexample:
  "children (parent_node ''paragraph'' []) = Some [] \<and>
   output_of (listItem (visit 2 cb_spec) cb_spec
        (parent_node ''listItem'' [parent_node ''paragraph'' []])
        tight_list init) = Inr ''<li></li>'' \<and>
   output_of (listItem (visit 2 cb_spec) cb_spec
        (parent_node ''listItem'' [parent_node ''paragraph'' []])
        loose_list init)
     = Inr ''<li>\<newline><p></p>\<newline></li>''"
  by code_simp

text \<open>
  C4, as amended: for every listItem node with a child sequence: if and only if the
  parent list is tight (loose being false), the item has exactly one child, and that
  sole child itself has a child sequence (empty or not), the sole child's children are
  rendered directly, joined with no separator, inside the list-item element with no
  block layout; otherwise all of the item's children are rendered joined by a newline
  inside a block-forced list-item element.
\<close>

theorem listItem_unwrap_rule:
  "children node = Some cs \<Longrightarrow>
   listItem vis cb node parent st =
     (if \<not> loose (props parent) \<and> (\<exists>c gs. cs = [c] \<and> children c = Some gs)
      then (case all_joined vis cb [] (hd cs) st of
              Inl e \<Rightarrow> Inl e
            | Inr (s, st') \<Rightarrow> Inr (h cb (Some node) ''li'' (Str s) (Flag False) Absent, st'))
      else (case all_joined vis cb [CHR 0x0A] node st of
              Inl e \<Rightarrow> Inl e
            | Inr (s, st') \<Rightarrow> Inr (h cb (Some node) ''li'' (Str s) (Flag True) Absent, st')))"
proof -
  assume cs: "children node = Some cs"
  show ?thesis
    unfolding single_iff[symmetric]
    by (cases "single cs parent") (simp_all add: listItem_single[OF cs] listItem_not_single[OF cs])
qed

theorem listItem_unwrap_rule_witness:
  "output_of (listItem (visit 2 cb_spec) cb_spec
        (parent_node ''listItem'' [parent_node ''paragraph'' [leaf ''text'' ''foo'']])
        tight_list init) = Inr ''<li>foo</li>'' \<and>
   output_of (listItem (visit 2 cb_spec) cb_spec
        (parent_node ''listItem'' [parent_node ''paragraph'' [leaf ''text'' ''foo'']])
        loose_list init)
     = Inr ''<li>\<newline><p>foo</p>\<newline></li>''"
proof -
  let ?item = "parent_node ''listItem'' [parent_node ''paragraph'' [leaf ''text'' ''foo'']]"
  have c: "children ?item = Some [parent_node ''paragraph'' [leaf ''text'' ''foo'']]"
    by (simp add: parent_node_def)
  have t: "\<not> loose (props tight_list) \<and>
      (\<exists>c gs. [parent_node ''paragraph'' [leaf ''text'' ''foo'']] = [c] \<and> children c = Some gs)"
    by (simp add: tight_list_def blank_def parent_node_def)
  have l: "\<not> (\<not> loose (props loose_list) \<and>
      (\<exists>c gs. [parent_node ''paragraph'' [leaf ''text'' ''foo'']] = [c] \<and> children c = Some gs))"
    by (simp add: loose_list_def blank_def)
  have a: "output_of (case all_joined (visit 2 cb_spec) cb_spec []
                (parent_node ''paragraph'' [leaf ''text'' ''foo'']) init of
              Inl e \<Rightarrow> Inl e
            | Inr (s, st') \<Rightarrow>
                Inr (h cb_spec (Some ?item) ''li'' (Str s) (Flag False) Absent, st'))
       = Inr ''<li>foo</li>''"
    by code_simp
  have b: "output_of (case all_joined (visit 2 cb_spec) cb_spec [CHR 0x0A] ?item
                init of
              Inl e \<Rightarrow> Inl e
            | Inr (s, st') \<Rightarrow>
                Inr (h cb_spec (Some ?item) ''li'' (Str s) (Flag True) Absent, st'))
       = Inr ''<li>\<newline><p>foo</p>\<newline></li>''"
    by code_simp
  show ?thesis
    using listItem_unwrap_rule[OF c, of "visit 2 cb_spec" cb_spec tight_list init]
      listItem_unwrap_rule[OF c, of "visit 2 cb_spec" cb_spec loose_list init]
      t l a b
    by simp
qed

section \<open>The list items of the footnote section\<close>

lemma single_footnote_item:
  "single (cs @ [backref i]) empty_object \<longleftrightarrow> cs = []"
  by (cases cs) (auto simp: single_def empty_object_def blank_def backref_def)

lemma footnote_item_listItem:
  "listItem vis cb (footnote_item def cs) empty_object st =
     (case (if cs = [] then all_joined vis cb [] (backref (ident (props def))) st
            else all_joined vis cb [CHR 0x0A] (footnote_item def cs) st) of
        Inl e \<Rightarrow> Inl e
      | Inr (s, st') \<Rightarrow>
          Inr (h cb (Some (footnote_item def cs)) ''li'' (Str s) (Flag (cs \<noteq> [])) Absent, st'))"
proof -
  have c: "children (footnote_item def cs) = Some (cs @ [backref (ident (props def))])"
    by (simp add: footnote_item_def)
  show ?thesis
  proof (cases "cs = []")
    case True
    then have s: "single (cs @ [backref (ident (props def))]) empty_object"
      using single_footnote_item[of cs "ident (props def)"] by blast
    show ?thesis unfolding listItem_single[OF c s] using True by (simp split: sum.splits)
  next
    case False
    then have s: "\<not> single (cs @ [backref (ident (props def))]) empty_object"
      using single_footnote_item[of cs "ident (props def)"] by blast
    show ?thesis unfolding listItem_not_single[OF c s] using False by (simp split: sum.splits)
  qed
qed

lemma footnote_items_length:
  "footnote_items vis cb defs st = Inr (items, st') \<Longrightarrow> length items = length defs"
  by (induction defs arbitrary: items st) (auto split: option.splits sum.splits if_splits)

lemma generate_loop_items:
  "generate_loop vis cb defs results st =
     (case footnote_items vis cb defs st of
        Inl e \<Rightarrow> Inl e
      | Inr (items, st') \<Rightarrow> Inr (results @ items, st'))"
proof (induction defs arbitrary: results st)
  case Nil
  show ?case by simp
next
  case (Cons d defs)
  show ?case
  proof (cases "children d")
    case None
    then show ?thesis by simp
  next
    case (Some cs)
    show ?thesis
      by (simp add: Some footnote_item_listItem Cons.IH split: sum.splits)
  qed
qed

lemma generateFootnotes_items:
  "generateFootnotes vis cb st =
     (if footnotes st = [] then Inr ([], st)
      else (case footnote_items vis cb (footnotes st) st of
              Inl e \<Rightarrow> Inl e
            | Inr (items, st') \<Rightarrow> Inr (footnotes_element cb items @ [CHR 0x0A], st')))"
  by (simp add: generateFootnotes_def generate_loop_items footnotes_element_def
        split: sum.splits)

text \<open>
  C10, as stated, fails: the footnote section appends the back-reference link to the
  record's children before it calls the list-item compiler, so a record with one
  paragraph gives an item with two children, which is not the tight-unwrap shape. The
  paragraph keeps its element and the item has block layout.
\<close>

theorem footnote_item_counterexample:
  \<open>output_of (compile 3 cb_spec
     (parent_node ''root'' [fdef_node ''1'' [parent_node ''paragraph'' [leaf ''text'' ''foo'']]]))
   = Inr (''<div class="footnotes">\<newline><hr>\<newline><ol>\<newline><li id="fn-1">\<newline><p>foo</p>\<newline><a href="#fnref-1" class="footnote-backref">'' @
          [CHR 0xE2, CHR 0x86, CHR 0xA9] @ ''</a>\<newline></li>\<newline></ol>\<newline></div>\<newline>'')\<close>
  by code_simp

text \<open>
  C10, as amended: the footnote section generator compiles each stored record, in the
  order of the store, through the listItem compiler with an empty object as the parent
  (so the parent is never loose), on an item whose children are the record's children
  followed by the back-reference link. Therefore a record with at least one child (for
  example one paragraph) is rendered through the block path: all the item's children
  joined by a newline inside a block-forced list item. Only a record with no children
  takes the tight-unwrap path, which renders the children of the back-reference link
  directly. The section is the footnotes element around these items, one per record,
  followed by a newline.
\<close>

theorem footnote_item_rendering:
  "generateFootnotes vis cb st =
     (if footnotes st = [] then Inr ([], st)
      else (case footnote_items vis cb (footnotes st) st of
              Inl e \<Rightarrow> Inl e
            | Inr (items, st') \<Rightarrow> Inr (footnotes_element cb items @ [CHR 0x0A], st'))) \<and>
   (case footnote_items vis cb (footnotes st) st of
      Inl e \<Rightarrow> True
    | Inr (items, st') \<Rightarrow> length items = length (footnotes st)) \<and>
   \<not> loose (props empty_object) \<and>
   (\<forall>s p def defs cs results.
      generate_loop vis cb (Node p (Some cs) # defs) results s =
        (case listItem vis cb (footnote_item (Node p (Some cs)) cs) empty_object s of
           Inl e \<Rightarrow> Inl e
         | Inr (r, s') \<Rightarrow> generate_loop vis cb defs (results @ [r]) s') \<and>
      listItem vis cb (footnote_item def cs) empty_object s =
        (case (if cs = [] then all_joined vis cb [] (backref (ident (props def))) s
               else all_joined vis cb [CHR 0x0A] (footnote_item def cs) s) of
           Inl e \<Rightarrow> Inl e
         | Inr (r, s') \<Rightarrow>
             Inr (h cb (Some (footnote_item def cs)) ''li'' (Str r) (Flag (cs \<noteq> [])) Absent, s')))"
proof (intro conjI allI)
  show "generateFootnotes vis cb st =
     (if footnotes st = [] then Inr ([], st)
      else (case footnote_items vis cb (footnotes st) st of
              Inl e \<Rightarrow> Inl e
            | Inr (items, st') \<Rightarrow> Inr (footnotes_element cb items @ [CHR 0x0A], st')))"
    by (rule generateFootnotes_items)
next
  show "case footnote_items vis cb (footnotes st) st of
          Inl e \<Rightarrow> True
        | Inr (items, st') \<Rightarrow> length items = length (footnotes st)"
    by (auto split: sum.splits dest: footnote_items_length)
next
  show "\<not> loose (props empty_object)" by (simp add: empty_object_def blank_def)
next
  fix s p defs cs results
  show "generate_loop vis cb (Node p (Some cs) # defs) results s =
        (case listItem vis cb (footnote_item (Node p (Some cs)) cs) empty_object s of
           Inl e \<Rightarrow> Inl e
         | Inr (r, s') \<Rightarrow> generate_loop vis cb defs (results @ [r]) s')"
    by simp
next
  fix s def cs
  show "listItem vis cb (footnote_item def cs) empty_object s =
        (case (if cs = [] then all_joined vis cb [] (backref (ident (props def))) s
               else all_joined vis cb [CHR 0x0A] (footnote_item def cs) s) of
           Inl e \<Rightarrow> Inl e
         | Inr (r, s') \<Rightarrow>
             Inr (h cb (Some (footnote_item def cs)) ''li'' (Str r) (Flag (cs \<noteq> [])) Absent, s'))"
    by (rule footnote_item_listItem)
qed

theorem footnote_item_rendering_witness:
  \<open>output_of (generateFootnotes (visit 3 cb_spec) cb_spec
      (store_with [fdef_node ''a'' [parent_node ''paragraph'' [leaf ''text'' ''foo'']],
                   fdef_node ''b'' []]))
   = Inr (''<div class="footnotes">\<newline><hr>\<newline><ol>\<newline><li id="fn-a">\<newline><p>foo</p>\<newline><a href="#fnref-a" class="footnote-backref">'' @
          [CHR 0xE2, CHR 0x86, CHR 0xA9] @ ''</a>\<newline></li>\<newline><li id="fn-b">'' @
          [CHR 0xE2, CHR 0x86, CHR 0xA9] @ ''</li>\<newline></ol>\<newline></div>\<newline>'')\<close>
proof -
  let ?st = "store_with [fdef_node ''a'' [parent_node ''paragraph'' [leaf ''text'' ''foo'']],
                         fdef_node ''b'' []]"
  have e: \<open>output_of (if footnotes ?st = [] then Inr ([], ?st)
      else (case footnote_items (visit 3 cb_spec) cb_spec (footnotes ?st) ?st of
              Inl e \<Rightarrow> Inl e
            | Inr (items, st') \<Rightarrow> Inr (footnotes_element cb_spec items @ [CHR 0x0A], st')))
   = Inr (''<div class="footnotes">\<newline><hr>\<newline><ol>\<newline><li id="fn-a">\<newline><p>foo</p>\<newline><a href="#fnref-a" class="footnote-backref">'' @
          [CHR 0xE2, CHR 0x86, CHR 0xA9] @ ''</a>\<newline></li>\<newline><li id="fn-b">'' @
          [CHR 0xE2, CHR 0x86, CHR 0xA9] @ ''</li>\<newline></ol>\<newline></div>\<newline>'')\<close>
    by code_simp
  show ?thesis
    unfolding footnote_item_rendering[of "visit 3 cb_spec" cb_spec ?st, THEN conjunct1]
    by (rule e)
qed

section \<open>The trailing newline of the output\<close>

lemma root_parts:
  assumes "root vis cb node st = Inr (s, st')"
  shows "\<exists>st0 blocks st1 fs.
           prepass node = Inr st0 \<and>
           all_joined vis cb [CHR 0x0A] node st0 = Inr (blocks, st1) \<and>
           generateFootnotes vis cb st1 = Inr (fs, st') \<and>
           s = (if blocks = [] then [] else blocks @ [CHR 0x0A]) @ fs"
proof -
  from assms obtain st0 where p: "prepass node = Inr st0"
    by (auto simp: root_def split: sum.splits)
  from assms p obtain blocks st1 where
    a: "all_joined vis cb [CHR 0x0A] node st0 = Inr (blocks, st1)"
    by (auto simp: root_def split: sum.splits)
  from assms p a obtain fs where
    g: "generateFootnotes vis cb st1 = Inr (fs, st')" and
    s: "s = (if blocks = [] then [] else blocks @ [CHR 0x0A]) @ fs"
    by (auto simp: root_def split: sum.splits if_splits)
  from p a g s show ?thesis by blast
qed

lemma generateFootnotes_section:
  assumes "generateFootnotes vis cb st = Inr (fs, st')"
  shows "if footnotes st = [] then fs = []
         else \<exists>items. length items = length (footnotes st) \<and>
                fs = footnotes_element cb items @ [CHR 0x0A]"
proof (cases "footnotes st = []")
  case True
  with assms show ?thesis by (simp add: generateFootnotes_items)
next
  case False
  with assms obtain items where
    i: "footnote_items vis cb (footnotes st) st = Inr (items, st')" and
    s: "fs = footnotes_element cb items @ [CHR 0x0A]"
    by (auto simp: generateFootnotes_items split: sum.splits)
  from footnote_items_length[OF i] s False show ?thesis by auto
qed

lemma ends_with_one_newline_snoc:
  "blocks \<noteq> [] \<Longrightarrow>
   ends_with_one_newline (blocks @ [CHR 0x0A]) \<longleftrightarrow> last blocks \<noteq> CHR 0x0A"
  by (cases blocks rule: rev_cases) (simp_all add: ends_with_one_newline_def)

text \<open>
  C6, as stated, fails: a non-empty output need not end with exactly one newline. A
  literal \<open>html\<close> node is passed through verbatim, so when the last block of the tree
  is literal HTML ending in a newline the output ends with two.
\<close>

theorem trailing_newline_counterexample:
  \<open>output_of (compile 1 cb_spec (parent_node ''root'' [leaf ''html'' ''<hr>\<newline>'']))
     = Inr ''<hr>\<newline>\<newline>''\<close>
  by code_simp

text \<open>
  C6, as amended: for every tree, whatever the collaborators and the recursion budget,
  the compiled output is the blocks joined by newlines, followed by exactly one newline
  when they are not empty, followed by the footnote section, which is empty when the
  store holds no record and otherwise is the footnotes element, with one item per
  record, followed by exactly one newline. So an output that is a non-empty string ends
  with a newline; and when the store holds no record it ends with exactly one newline
  if and only if the joined blocks do not end in a newline themselves (a literal html
  block, passed through verbatim, can).
\<close>

theorem compile_output_ends_with_newline:
  assumes "output_of (compile k cb tree) = Inr s"
  shows "\<exists>st0 blocks st1 fs st'.
           prepass tree = Inr st0 \<and>
           all_joined (visit k cb) cb [CHR 0x0A] tree st0 = Inr (blocks, st1) \<and>
           generateFootnotes (visit k cb) cb st1 = Inr (fs, st') \<and>
           s = (if blocks = [] then [] else blocks @ [CHR 0x0A]) @ fs \<and>
           (if footnotes st1 = [] then fs = []
            else \<exists>items. length items = length (footnotes st1) \<and>
                   fs = footnotes_element cb items @ [CHR 0x0A]) \<and>
           (s \<noteq> [] \<longrightarrow> last s = CHR 0x0A) \<and>
           (s \<noteq> [] \<and> footnotes st1 = [] \<longrightarrow>
              (ends_with_one_newline s \<longleftrightarrow> last blocks \<noteq> CHR 0x0A))"
proof -
  from assms obtain st' where "root (visit k cb) cb tree init = Inr (s, st')"
    by (auto simp: output_of_def compile_def split: sum.splits)
  from root_parts[OF this] obtain st0 blocks st1 fs where
    p: "prepass tree = Inr st0" and
    a: "all_joined (visit k cb) cb [CHR 0x0A] tree st0 = Inr (blocks, st1)" and
    g: "generateFootnotes (visit k cb) cb st1 = Inr (fs, st')" and
    s: "s = (if blocks = [] then [] else blocks @ [CHR 0x0A]) @ fs"
    by blast
  note f = generateFootnotes_section[OF g]
  have l: "s \<noteq> [] \<longrightarrow> last s = CHR 0x0A"
    using f s by (auto split: if_splits)
  have o: "s \<noteq> [] \<and> footnotes st1 = [] \<longrightarrow>
      (ends_with_one_newline s \<longleftrightarrow> last blocks \<noteq> CHR 0x0A)"
    using f s ends_with_one_newline_snoc[of blocks] by (auto split: if_splits)
  from p a g s f l o show ?thesis by blast
qed

theorem compile_output_ends_with_newline_witness:
  \<open>output_of (compile 2 cb_spec
      (parent_node ''root'' [parent_node ''paragraph'' [leaf ''text'' ''foo'']]))
     = Inr ''<p>foo</p>\<newline>''
   \<and> last ''<p>foo</p>\<newline>'' = CHR 0x0A\<close>
proof -
  have e: \<open>output_of (compile 2 cb_spec
      (parent_node ''root'' [parent_node ''paragraph'' [leaf ''text'' ''foo'']]))
     = Inr ''<p>foo</p>\<newline>''\<close>
    by code_simp
  from compile_output_ends_with_newline[OF e] have "last ''<p>foo</p>\<newline>'' = CHR 0x0A"
    by blast
  with e show ?thesis by (intro conjI)
qed

section \<open>Tables: the rows and cells of the output\<close>

lemma js_set_pad: "js_set xs i v = (pad xs (Suc i))[i := Some v]"
proof (cases "i < length xs")
  case True
  then show ?thesis by (simp add: js_set_def pad_def list_update_append)
next
  case False
  then have k: "Suc i - length xs = Suc (i - length xs)" by simp
  have "(replicate (i - length xs) None @ [None :: string option])[i - length xs := Some v]
      = replicate (i - length xs) None @ [Some v]"
    using list_update_length[of "replicate (i - length xs) (None :: string option)" None "[]" "Some v"]
    by simp
  then show ?thesis
    using False by (simp add: js_set_def pad_def list_update_append k replicate_append_same)
qed

lemma length_pad: "length (pad xs n) = max (length xs) n"
  by (simp add: pad_def)

lemma pad_ge: "n \<le> length xs \<Longrightarrow> pad xs n = xs"
  by (simp add: pad_def)

lemma drop_js_set:
  "drop pos (js_set out pos v) = Some v # drop (Suc pos) (pad out (Suc pos))"
proof -
  have "pos < length (pad out (Suc pos))" by (simp add: length_pad)
  then show ?thesis
    unfolding js_set_pad
    by (simp add: drop_update_cancel Cons_nth_drop_Suc[symmetric] )
qed

lemma row_contents_length:
  "row_contents vis cb row pos st = Inr (cs, st') \<Longrightarrow> length cs = pos"
  by (induction pos arbitrary: st cs st') (auto split: option.splits sum.splits)

lemma js_join_Some: "js_join sep (map Some xs) = join sep xs"
  by (simp add: js_join_def js_str_def comp_def)

lemma cells_loop_contents:
  "cells_loop vis cb al name row pos out st =
     (case row_contents vis cb row pos st of
        Inl e \<Rightarrow> Inl e
      | Inr (cs, st') \<Rightarrow>
          Inr (map Some (map (\<lambda>j. cell_layout cb al name row j (cs ! j)) [0..<pos]) @
               drop pos (pad out pos), st'))"
proof (induction pos arbitrary: out st)
  case 0
  show ?case by (simp add: pad_def)
next
  case (Suc pos)
  show ?case
  proof (cases row)
    case None
    then show ?thesis by simp
  next
    case (Some cells)
    let ?step = "(case cell_at row pos of
                   None \<Rightarrow> Inr ([], st)
                 | Some c \<Rightarrow> all_joined vis cb [CHR 0x0A] c st)"
    show ?thesis
    proof (cases ?step)
      case (Inl e)
      then show ?thesis using Some by (simp add: cell_at_def split: option.splits if_splits)
    next
      case (Inr r)
      obtain content st1 where r: "r = (content, st1)" by (cases r)
      have cl: "cells_loop vis cb al name row (Suc pos) out st =
        cells_loop vis cb al name row pos
          (js_set out pos (cell_layout cb al name row pos content)) st1"
        using Some Inr r
        by (auto simp: cell_at_def cell_layout_def align_at_def Let_def split: option.splits if_splits)
      show ?thesis
      proof (cases "row_contents vis cb row pos st1")
        case (Inl e)
        have "row_contents vis cb row (Suc pos) st = Inl e"
          using Some \<open>?step = Inr r\<close> r Inl by simp
        then show ?thesis unfolding cl Suc.IH using Inl by simp
      next
        case (Inr q)
        obtain cs st2 where q: "q = (cs, st2)" by (cases q)
        have len: "length cs = pos" using Inr q row_contents_length by blast
        have rc: "row_contents vis cb row (Suc pos) st = Inr (cs @ [content], st2)"
          using Some \<open>?step = Inr r\<close> r Inr q by simp
        have m: "map (\<lambda>j. cell_layout cb al name row j ((cs @ [content]) ! j)) [0..<pos]
           = map (\<lambda>j. cell_layout cb al name row j (cs ! j)) [0..<pos]"
          using len by (simp add: nth_append)
        have "pos \<le> length (js_set out pos (cell_layout cb al name row pos content))"
          by (simp add: js_set_pad length_pad)
        then have p: "pad (js_set out pos (cell_layout cb al name row pos content)) pos
            = js_set out pos (cell_layout cb al name row pos content)"
          by (rule pad_ge)
        show ?thesis
          unfolding cl Suc.IH rc using Inr q len
          by (simp add: p drop_js_set m nth_append)
      qed
    qed
  qed
qed

lemma cells_loop_row:
  "cells_loop vis cb al name row (length al) [] st =
     (case row_contents vis cb row (length al) st of
        Inl e \<Rightarrow> Inl e
      | Inr (cs, st') \<Rightarrow>
          Inr (map Some (map (\<lambda>j. cell_layout cb al name row j (cs ! j)) [0..<length al]), st'))"
  unfolding cells_loop_contents by (simp add: pad_def split: sum.splits)

lemma js_join_Some_comp: "js_join sep (map (Some \<circ> f) xs) = join sep (map f xs)"
  by (simp add: js_join_def js_str_def comp_def)

lemma table_contents_length:
  "table_contents vis cb n rows index st = Inr (css, st') \<Longrightarrow> length css = index"
  by (induction index arbitrary: st css st') (auto split: sum.splits)

lemma rows_loop_contents:
  "rows_loop vis cb al rows index result st =
     (case table_contents vis cb (length al) rows index st of
        Inl e \<Rightarrow> Inl e
      | Inr (css, st') \<Rightarrow>
          Inr (map Some (map (\<lambda>i. row_layout cb al rows i (css ! i)) [0..<index]) @
               drop index (pad result index), st'))"
proof (induction index arbitrary: result st)
  case 0
  show ?case by (simp add: pad_def)
next
  case (Suc index)
  let ?name = "if index = 0 then ''th'' else ''td''"
  show ?case
  proof (cases "row_contents vis cb (children (rows ! index)) (length al) st")
    case (Inl e)
    then show ?thesis by (simp add: cells_loop_row)
  next
    case (Inr r)
    obtain cs st1 where r: "r = (cs, st1)" by (cases r)
    have rl: "rows_loop vis cb al rows (Suc index) result st =
        rows_loop vis cb al rows index (js_set result index (row_layout cb al rows index cs)) st1"
      using Inr r by (simp add: cells_loop_row row_layout_def js_join_Some_comp)
    show ?thesis
    proof (cases "table_contents vis cb (length al) rows index st1")
      case (Inl e)
      have "table_contents vis cb (length al) rows (Suc index) st = Inl e"
        using \<open>row_contents vis cb (children (rows ! index)) (length al) st = Inr r\<close> r Inl by simp
      then show ?thesis unfolding rl Suc.IH using Inl by simp
    next
      case (Inr q)
      obtain css st2 where q: "q = (css, st2)" by (cases q)
      have len: "length css = index" using Inr q table_contents_length by blast
      have tc: "table_contents vis cb (length al) rows (Suc index) st = Inr (css @ [cs], st2)"
        using \<open>row_contents vis cb (children (rows ! index)) (length al) st = Inr r\<close> r Inr q by simp
      have m: "map (\<lambda>i. row_layout cb al rows i ((css @ [cs]) ! i)) [0..<index]
           = map (\<lambda>i. row_layout cb al rows i (css ! i)) [0..<index]"
        using len by (simp add: nth_append)
      have "index \<le> length (js_set result index (row_layout cb al rows index cs))"
        by (simp add: js_set_pad length_pad)
      then have p: "pad (js_set result index (row_layout cb al rows index cs)) index
            = js_set result index (row_layout cb al rows index cs)"
        by (rule pad_ge)
      show ?thesis
        unfolding rl Suc.IH tc using Inr q len
        by (simp add: p drop_js_set m nth_append)
    qed
  qed
qed

lemma row_contents_missing:
  "row_contents vis cb row pos st = Inr (cs, st') \<Longrightarrow> j < pos \<Longrightarrow> cell_at row j = None
     \<Longrightarrow> cs ! j = []"
proof (induction pos arbitrary: st cs st')
  case 0
  then show ?case by simp
next
  case (Suc pos)
  from Suc.prems(1) obtain cells content st1 cs' where
    row: "row = Some cells" and
    step: "(case cell_at row pos of None \<Rightarrow> Inr ([], st)
             | Some c \<Rightarrow> all_joined vis cb [CHR 0x0A] c st) = Inr (content, st1)" and
    rest: "row_contents vis cb row pos st1 = Inr (cs', st')" and
    cs: "cs = cs' @ [content]"
    by (auto split: option.splits sum.splits)
  have len: "length cs' = pos" using rest by (rule row_contents_length)
  show ?case
  proof (cases "j = pos")
    case True
    with step Suc.prems(3) have "content = []" by simp
    with cs len True show ?thesis by (simp add: nth_append)
  next
    case False
    with Suc.prems(2) have "j < pos" by simp
    from Suc.IH[OF rest this Suc.prems(3)] cs len \<open>j < pos\<close> show ?thesis
      by (simp add: nth_append)
  qed
qed

lemma table_contents_rows:
  "table_contents vis cb n rows index st = Inr (css, st') \<Longrightarrow> i < index \<Longrightarrow>
     \<exists>s s'. row_contents vis cb (children (rows ! i)) n s = Inr (css ! i, s')"
proof (induction index arbitrary: st css st')
  case 0
  then show ?case by simp
next
  case (Suc index)
  from Suc.prems(1) obtain cs st1 css' where
    row: "row_contents vis cb (children (rows ! index)) n st = Inr (cs, st1)" and
    rest: "table_contents vis cb n rows index st1 = Inr (css', st')" and
    css: "css = css' @ [cs]"
    by (auto split: sum.splits)
  have len: "length css' = index" using rest by (rule table_contents_length)
  show ?case
  proof (cases "i = index")
    case True
    with row css len show ?thesis
      by (intro exI[of _ st] exI[of _ st1]) (simp add: nth_append)
  next
    case False
    with Suc.prems(2) have "i < index" by simp
    from Suc.IH[OF rest this] css len \<open>i < index\<close> show ?thesis by (simp add: nth_append)
  qed
qed

lemma table_refines:
  assumes "children node = Some rows" and "rows \<noteq> []" and "align (props node) = Some al"
  shows "table vis cb node st =
     (case table_contents vis cb (length al) rows (length rows) st of
        Inl e \<Rightarrow> Inl e
      | Inr (css, st') \<Rightarrow> Inr (table_layout cb node al rows css, st'))"
proof (cases "table_contents vis cb (length al) rows (length rows) st")
  case (Inl e)
  then show ?thesis using assms(1,3) by (simp add: table_def rows_loop_contents)
next
  case (Inr q)
  obtain css st' where q: "q = (css, st')" by (cases q)
  let ?trs = "map (\<lambda>i. row_layout cb al rows i (css ! i)) [0..<length rows]"
  have rl: "rows_loop vis cb al rows (length rows) [] st = Inr (map Some ?trs, st')"
    using Inr q by (simp add: rows_loop_contents pad_def)
  have pos: "0 < length rows" using assms(2) by simp
  have hd: "js_index (map Some ?trs) 0 = Some (row_layout cb al rows 0 (css ! 0))"
    using pos by (simp add: js_index_def nth_map upt_conv_Cons del: upt_Suc)
  have tl: "js_join [CHR 0x0A] (drop 1 (map Some ?trs))
      = join [CHR 0x0A] (map (\<lambda>i. row_layout cb al rows i (css ! i)) [1..<length rows])"
  proof -
    have "drop 1 [0..<length rows] = [1..<length rows]" by (simp add: drop_upt)
    then have "drop 1 (map Some ?trs)
        = map Some (map (\<lambda>i. row_layout cb al rows i (css ! i)) [1..<length rows])"
      unfolding drop_map by simp
    then show ?thesis by (simp only: js_join_Some)
  qed
  have "table vis cb node st =
      Inr (h cb (Some node) ''table''
             (Str (h cb (Some node) ''thead'' (arg_opt (js_index (map Some ?trs) 0))
                     (Flag True) Absent @
                   [CHR 0x0A] @
                   h cb (Some node) ''tbody'' (Str (js_join [CHR 0x0A] (drop 1 (map Some ?trs))))
                     (Flag True) Absent))
             (Flag True) Absent, st')"
    unfolding table_def assms(1) assms(3) by (simp only: option.case rl sum.case prod.case)
  also have "\<dots> = Inr (table_layout cb node al rows css, st')"
    unfolding hd tl by (simp add: arg_opt_def table_layout_def)
  finally show ?thesis using Inr q by simp
qed

lemma cell_at_take: "j < n \<Longrightarrow> cell_at (Some (take n cells)) j = cell_at (Some cells) j"
  by (simp add: cell_at_def)

lemma row_contents_take:
  "pos \<le> n \<Longrightarrow>
   row_contents vis cb (Some (take n cells)) pos st = row_contents vis cb (Some cells) pos st"
proof (induction pos arbitrary: st)
  case 0
  show ?case by simp
next
  case (Suc pos)
  then have "pos < n" and "pos \<le> n" by simp_all
  then show ?case
    using Suc.IH[OF \<open>pos \<le> n\<close>] by (simp add: cell_at_take split: sum.splits option.splits)
qed

text \<open>
  C8: for a table node with a non-empty row sequence and an alignment list, the output
  is the layout of the rows in document order: row 0 with header cells inside the
  header section, the rows from 1 on with data cells inside the body section, every row
  with one cell per index of the alignment list, carrying that column's alignment. The
  contents come out in the shape of the table (one list per row, one string per
  column), and the content of a cell that the row is too short to have is empty.
\<close>

theorem table_rows_in_document_order:
  assumes "children node = Some rows" and "rows \<noteq> []" and "align (props node) = Some al"
  shows "table vis cb node st =
     (case table_contents vis cb (length al) rows (length rows) st of
        Inl e \<Rightarrow> Inl e
      | Inr (css, st') \<Rightarrow> Inr (table_layout cb node al rows css, st')) \<and>
     (\<forall>css. output_of (table_contents vis cb (length al) rows (length rows) st) = Inr css \<longrightarrow>
        length css = length rows \<and>
        (\<forall>i < length rows. length (css ! i) = length al \<and>
           (\<forall>j < length al. cell_at (children (rows ! i)) j = None \<longrightarrow> css ! i ! j = [])))"
proof (intro conjI allI impI)
  show "table vis cb node st =
     (case table_contents vis cb (length al) rows (length rows) st of
        Inl e \<Rightarrow> Inl e
      | Inr (css, st') \<Rightarrow> Inr (table_layout cb node al rows css, st'))"
    using assms by (rule table_refines)
next
  fix css
  assume "output_of (table_contents vis cb (length al) rows (length rows) st) = Inr css"
  then obtain st' where
    tc: "table_contents vis cb (length al) rows (length rows) st = Inr (css, st')"
    by (auto simp: output_of_def split: sum.splits)
  show "length css = length rows" using tc by (rule table_contents_length)
  fix i
  assume i: "i < length rows"
  from table_contents_rows[OF tc i] obtain s s' where
    rc: "row_contents vis cb (children (rows ! i)) (length al) s = Inr (css ! i, s')"
    by blast
  show "length (css ! i) = length al" using rc by (rule row_contents_length)
  fix j
  assume "j < length al" and "cell_at (children (rows ! i)) j = None"
  with rc show "css ! i ! j = []" by (rule row_contents_missing)
qed

theorem table_rows_in_document_order_witness:
  \<open>output_of (table (visit 2 cb_spec) cb_spec tbl init) =
     Inr ''<table>\<newline><thead>\<newline><tr>\<newline><th align="left">a</th>\<newline><th align="right">b</th>\<newline></tr>\<newline></thead>\<newline><tbody>\<newline><tr>\<newline><td align="left">c</td>\<newline><td align="right"></td>\<newline></tr>\<newline></tbody>\<newline></table>'' \<and>
   output_of (table_contents (visit 2 cb_spec) cb_spec 2 (the (children tbl)) 2 init)
     = Inr [[''a'', ''b''], [''c'', []]]\<close>
proof -
  have c: "children tbl = Some (the (children tbl))" and n: "the (children tbl) \<noteq> []"
    by (simp_all add: tbl_def)
  have a: "align (props tbl) = Some [AStr ''left'', AStr ''right'']"
    by (simp add: tbl_def blank_def)
  have l: "length [AStr ''left'', AStr ''right''] = 2" and r: "length (the (children tbl)) = 2"
    by (simp_all add: tbl_def)
  have e: \<open>output_of (case table_contents (visit 2 cb_spec) cb_spec 2 (the (children tbl)) 2 init of
              Inl e \<Rightarrow> Inl e
            | Inr (css, st') \<Rightarrow>
                Inr (table_layout cb_spec tbl [AStr ''left'', AStr ''right''] (the (children tbl)) css,
                     st')) =
     Inr ''<table>\<newline><thead>\<newline><tr>\<newline><th align="left">a</th>\<newline><th align="right">b</th>\<newline></tr>\<newline></thead>\<newline><tbody>\<newline><tr>\<newline><td align="left">c</td>\<newline><td align="right"></td>\<newline></tr>\<newline></tbody>\<newline></table>''\<close>
    by code_simp
  have t: "output_of (table_contents (visit 2 cb_spec) cb_spec 2 (the (children tbl)) 2 init)
             = Inr [[''a'', ''b''], [''c'', []]]"
    by code_simp
  from table_rows_in_document_order[OF c n a, of "visit 2 cb_spec" cb_spec init]
  show ?thesis using e t unfolding l r by simp
qed

lemma cell_at_cut: "j < n \<Longrightarrow> cell_at (map_option (take n) row) j = cell_at row j"
  by (cases row) (simp_all add: cell_at_def)

lemma row_contents_cut:
  "pos \<le> n \<Longrightarrow>
   row_contents vis cb (map_option (take n) row) pos st = row_contents vis cb row pos st"
proof (cases row)
  case None
  then show ?thesis by simp
next
  case (Some cells)
  assume "pos \<le> n"
  then show ?thesis using row_contents_take[of pos n vis cb cells st] by (simp add: Some)
qed

lemma table_contents_cut:
  "index \<le> length rows \<Longrightarrow>
   table_contents vis cb n (map (cut_row n) rows) index st = table_contents vis cb n rows index st"
proof (induction index arbitrary: st)
  case 0
  show ?case by simp
next
  case (Suc index)
  then have i: "index < length rows" and "index \<le> length rows" by simp_all
  then show ?case
    using Suc.IH by (simp add: cut_row_def row_contents_cut cong: sum.case_cong)
qed

lemma row_layout_cut:
  assumes "reads_fields_only cb" and "i < length rows"
  shows "row_layout cb al (map (cut_row (length al)) rows) i cs = row_layout cb al rows i cs"
proof -
  let ?name = "if i = 0 then ''th'' else ''td''"
  have c: "map (\<lambda>j. cell_layout cb al ?name (children (cut_row (length al) (rows ! i))) j (cs ! j))
             [0..<length al]
         = map (\<lambda>j. cell_layout cb al ?name (children (rows ! i)) j (cs ! j)) [0..<length al]"
    by (simp add: cell_layout_def cut_row_def cell_at_cut)
  have p: "props (cut_row (length al) (rows ! i)) = props (rows ! i)"
    by (simp add: cut_row_def)
  have hn: "\<And>name x y z. h cb (Some (cut_row (length al) (rows ! i))) name x y z
                          = h cb (Some (rows ! i)) name x y z"
    using assms(1) p unfolding reads_fields_only_def by blast
  show ?thesis
    unfolding row_layout_def using assms(2) by (simp add: c hn)
qed

lemma table_layout_cut:
  assumes "reads_fields_only cb" and "rows \<noteq> []" and "props node' = props node"
  shows "table_layout cb node' al (map (cut_row (length al)) rows) css
           = table_layout cb node al rows css"
proof -
  have r: "\<And>i. i < length rows \<Longrightarrow>
      row_layout cb al (map (cut_row (length al)) rows) i (css ! i) = row_layout cb al rows i (css ! i)"
    using assms(1) by (rule row_layout_cut)
  have b: "map (\<lambda>i. row_layout cb al (map (cut_row (length al)) rows) i (css ! i)) [1..<length rows]
         = map (\<lambda>i. row_layout cb al rows i (css ! i)) [1..<length rows]"
    using r by simp
  have z: "row_layout cb al (map (cut_row (length al)) rows) 0 (css ! 0)
         = row_layout cb al rows 0 (css ! 0)"
    using r[of 0] assms(2) by simp
  have hn: "\<And>name x y z. h cb (Some node') name x y z = h cb (Some node) name x y z"
    using assms(1,3) unfolding reads_fields_only_def by blast
  show ?thesis
    unfolding table_layout_def by (simp only: length_map b z hn)
qed

lemma table_empty:
  assumes "children node = Some []" and "align (props node) = Some al"
  shows "table vis cb node st =
     Inr (h cb (Some node) ''table''
            (Str (h cb (Some node) ''thead'' Absent (Flag True) Absent @ [CHR 0x0A] @
                  h cb (Some node) ''tbody'' (Str []) (Flag True) Absent))
            (Flag True) Absent, st)"
  using assms by (simp add: table_def js_index_def arg_opt_def js_join_def)

lemma reads_fields_only_spec: "reads_fields_only cb_spec"
  by (simp add: reads_fields_only_def cb_spec_def h_spec_def)

text \<open>
  C9: for every table node with a child sequence and an alignment list, the contents of
  the output are compiled from the rows cut to the length of the alignment list, and
  the output lays out, for every row, exactly one cell per alignment entry: a cell at
  an index at or beyond that length is never compiled and is in no row of the output.
  When the element builder reads only the fields of the source node it is handed,
  compiling the table gives the very string, and leaves the very state, that compiling
  the table without those cells gives.
\<close>

theorem table_row_extra_cells_dropped:
  assumes "children node = Some rows" and "align (props node) = Some al"
  shows "(rows \<noteq> [] \<longrightarrow>
            table vis cb node st =
              (case table_contents vis cb (length al) (map (cut_row (length al)) rows)
                      (length rows) st of
                 Inl e \<Rightarrow> Inl e
               | Inr (css, st') \<Rightarrow> Inr (table_layout cb node al rows css, st'))) \<and>
         (reads_fields_only cb \<longrightarrow> table vis cb node st = table vis cb (cut_table node) st)"
proof (intro conjI impI)
  assume "rows \<noteq> []"
  from table_refines[OF assms(1) this assms(2)] show "table vis cb node st =
      (case table_contents vis cb (length al) (map (cut_row (length al)) rows) (length rows) st of
         Inl e \<Rightarrow> Inl e
       | Inr (css, st') \<Rightarrow> Inr (table_layout cb node al rows css, st'))"
    by (simp add: table_contents_cut)
next
  assume rf: "reads_fields_only cb"
  let ?cut = "map (cut_row (length al)) rows"
  have cc: "children (cut_table node) = Some ?cut" and ca: "align (props (cut_table node)) = Some al"
    and cp: "props (cut_table node) = props node"
    using assms by (simp_all add: cut_table_def)
  show "table vis cb node st = table vis cb (cut_table node) st"
  proof (cases "rows = []")
    case True
    have hn: "\<And>name x y z. h cb (Some (cut_table node)) name x y z = h cb (Some node) name x y z"
      using rf cp unfolding reads_fields_only_def by blast
    from True assms(1) cc have "children node = Some []" and "children (cut_table node) = Some []"
      by simp_all
    then show ?thesis by (simp add: table_empty[OF _ assms(2)] table_empty[OF _ ca] hn)
  next
    case False
    then have n: "?cut \<noteq> []" by simp
    have "table vis cb (cut_table node) st =
        (case table_contents vis cb (length al) ?cut (length ?cut) st of
           Inl e \<Rightarrow> Inl e
         | Inr (css, st') \<Rightarrow> Inr (table_layout cb (cut_table node) al ?cut css, st'))"
      using cc n ca by (rule table_refines)
    also have "\<dots> = (case table_contents vis cb (length al) rows (length rows) st of
           Inl e \<Rightarrow> Inl e
         | Inr (css, st') \<Rightarrow> Inr (table_layout cb node al rows css, st'))"
      by (simp add: table_contents_cut table_layout_cut[OF rf False cp] split: sum.splits)
    also have "\<dots> = table vis cb node st"
      using table_refines[OF assms(1) False assms(2)] by simp
    finally show ?thesis by simp
  qed
qed

theorem table_row_extra_cells_dropped_witness:
  \<open>output_of (table (visit 2 cb_spec) cb_spec wide_tbl init) =
     Inr ''<table>\<newline><thead>\<newline><tr>\<newline><th align="left">x</th>\<newline><th>y</th>\<newline></tr>\<newline></thead>\<newline><tbody>\<newline><tr>\<newline><td align="left">a</td>\<newline><td>b</td>\<newline></tr>\<newline></tbody>\<newline></table>'' \<and>
   cut_table wide_tbl =
     Node (blank\<lparr>ntype := ''table'', align := Some [AStr ''left'', ANull]\<rparr>)
       (Some [parent_node ''tableRow'' [parent_node ''tableCell'' [leaf ''text'' ''x''],
                                       parent_node ''tableCell'' [leaf ''text'' ''y'']],
              parent_node ''tableRow'' [parent_node ''tableCell'' [leaf ''text'' ''a''],
                                       parent_node ''tableCell'' [leaf ''text'' ''b'']]])\<close>
proof -
  have c: "children wide_tbl = Some (the (children wide_tbl))"
    and a: "align (props wide_tbl) = Some [AStr ''left'', ANull]"
    by (simp_all add: wide_tbl_def blank_def)
  have e: \<open>output_of (table (visit 2 cb_spec) cb_spec (cut_table wide_tbl) init) =
     Inr ''<table>\<newline><thead>\<newline><tr>\<newline><th align="left">x</th>\<newline><th>y</th>\<newline></tr>\<newline></thead>\<newline><tbody>\<newline><tr>\<newline><td align="left">a</td>\<newline><td>b</td>\<newline></tr>\<newline></tbody>\<newline></table>''\<close>
    by code_simp
  have k: \<open>cut_table wide_tbl =
     Node (blank\<lparr>ntype := ''table'', align := Some [AStr ''left'', ANull]\<rparr>)
       (Some [parent_node ''tableRow'' [parent_node ''tableCell'' [leaf ''text'' ''x''],
                                       parent_node ''tableCell'' [leaf ''text'' ''y'']],
              parent_node ''tableRow'' [parent_node ''tableCell'' [leaf ''text'' ''a''],
                                       parent_node ''tableCell'' [leaf ''text'' ''b'']]])\<close>
    by code_simp
  from table_row_extra_cells_dropped[OF c a, of "visit 2 cb_spec" cb_spec init, THEN conjunct2]
    reads_fields_only_spec
  have "table (visit 2 cb_spec) cb_spec wide_tbl init
          = table (visit 2 cb_spec) cb_spec (cut_table wide_tbl) init"
    by blast
  with e k show ?thesis by (simp only:)
qed

section \<open>Text nodes\<close>

lemma split_lines_no_break: "CHR 0x0A \<notin> set s \<Longrightarrow> split_lines s = [s]"
  by (induction s) auto

lemma trim_spec_plain:
  assumes "s = [] \<or> (\<not> is_space (hd s) \<and> \<not> is_space (last s))"
  shows "trim_spec s = s"
proof (cases "s = []")
  case True
  then show ?thesis by (simp add: trim_spec_def)
next
  case False
  with assms have h: "\<not> is_space (hd s)" and l: "\<not> is_space (last s)" by simp_all
  from False h have "dropWhile is_space s = s" by (cases s) simp_all
  moreover from False l have "dropWhile is_space (rev s) = rev s"
    by (cases s rule: rev_cases) simp_all
  ultimately show ?thesis by (simp add: trim_spec_def)
qed

lemma trim_lines_spec_boundary: "line_boundary_trim trim_lines_spec"
  unfolding line_boundary_trim_def plain_line_def
  by (auto simp: trim_lines_spec_def split_lines_no_break trim_spec_plain)

lemma visit_text:
  "ntype (props node) = ''text'' \<Longrightarrow>
   visit (Suc k) cb node parent st = Inr (text_c cb node, st)"
  by (simp add: dispatch_def visitors_def)

text \<open>
  C3, as stated, fails: the text compiler calls the line-boundary trim only, not the
  collapse of white-space runs (which \<open>inlineCode\<close> calls), so a run of spaces
  inside a line stays as it is.
\<close>

theorem text_whitespace_run_counterexample:
  "text_c cb_spec (leaf ''text'' ''a  b'') = ''a  b'' \<and>
   collapse_spec (encode_spec (Some ''a  b'')) = ''a b''"
  by code_simp

text \<open>
  C3, as amended: for every text node, the compiled value is the node's value
  HTML-escaped and then passed through the line-boundary trim \<open>util.trimLines\<close>, and
  through nothing else; the state is left as it is. Internal runs of white space are
  not normalised: with any trim that strips white space only where a line begins or
  ends, a value whose escaped form is one line without white space at its two ends
  compiles to that escaped form, every run of white space inside it kept.
\<close>

theorem text_escape_then_trim_lines:
  assumes "ntype (props node) = ''text''"
  shows "visit (Suc k) cb node parent st =
           Inr (trimLines cb (encode cb (nvalue (props node))), st) \<and>
         (line_boundary_trim (trimLines cb) \<and> plain_line (encode cb (nvalue (props node))) \<longrightarrow>
            visit (Suc k) cb node parent st = Inr (encode cb (nvalue (props node)), st))"
proof -
  note v = visit_text[OF assms, of k cb parent st]
  show ?thesis unfolding v text_c_def line_boundary_trim_def by auto
qed

theorem text_escape_then_trim_lines_witness:
  "visit (Suc 0) cb_spec (leaf ''text'' ''a  < b'') empty_object init = Inr (''a  &lt; b'', init)"
proof -
  have t: "ntype (props (leaf ''text'' ''a  < b'')) = ''text''"
    by (simp add: leaf_def)
  have e: "encode cb_spec (nvalue (props (leaf ''text'' ''a  < b''))) = ''a  &lt; b''"
    by code_simp
  have p: "plain_line ''a  &lt; b''" by code_simp
  have b: "line_boundary_trim (trimLines cb_spec)"
    using trim_lines_spec_boundary by (simp add: cb_spec_def)
  from text_escape_then_trim_lines[OF t, of 0 cb_spec empty_object init] b p
  show ?thesis unfolding e by blast
qed

section \<open>References\<close>

lemma failsafe_shortcut:
  "referenceType (props node) = ''shortcut'' \<Longrightarrow> \<not> truthy (link (props def)) \<Longrightarrow>
   failsafe vis cb node def st = bracketed vis cb node st"
  by (simp add: failsafe_def bracketed_def)

lemma failsafe_other:
  "\<not> (referenceType (props node) = ''shortcut'' \<and> \<not> truthy (link (props def))) \<Longrightarrow>
   failsafe vis cb node def st = Inr ([], st)"
  by (auto simp: failsafe_def)

lemma bracketed_nonempty: "bracketed vis cb node st = Inr (f, st') \<Longrightarrow> f \<noteq> []"
  by (auto simp: bracketed_def split: sum.splits option.splits)

text \<open>
  What the two reference compilers do, by cases: the bracketed source form for a
  shortcut reference whose definition has no link that is not empty, and the element
  built from the definition otherwise.
\<close>

lemma linkReference_cases:
  assumes "resolve st node = Inr def"
  shows "linkReference vis cb node st =
     (if referenceType (props node) = ''shortcut'' \<and> \<not> truthy (link (props def))
      then bracketed vis cb node st
      else (case all_joined vis cb [] node st of
              Inl e \<Rightarrow> Inl e
            | Inr (s, st') \<Rightarrow>
                Inr (h cb (Some node) ''a''
                       (Attrs [(''href'', AStr (normalizeURI cb (Some (link_or_empty def)))),
                               (''title'', attr_opt (title (props def)))])
                       (Str s) Absent, st')))"
proof (cases "referenceType (props node) = ''shortcut'' \<and> \<not> truthy (link (props def))")
  case True
  then have f: "failsafe vis cb node def st = bracketed vis cb node st"
    by (simp add: failsafe_shortcut)
  show ?thesis
  proof (cases "bracketed vis cb node st")
    case (Inl e)
    then show ?thesis unfolding if_P[OF True] by (simp add: linkReference_def assms f)
  next
    case (Inr r)
    obtain s st' where r: "r = (s, st')" by (cases r)
    with Inr have "s \<noteq> []" using bracketed_nonempty by blast
    then show ?thesis unfolding if_P[OF True] using Inr r by (simp add: linkReference_def assms f)
  qed
next
  case False
  then have fs: "failsafe vis cb node def st = Inr ([], st)"
    by (rule failsafe_other)
  show ?thesis unfolding if_not_P[OF False] by (simp add: linkReference_def assms fs)
qed

lemma imageReference_cases:
  assumes "resolve st node = Inr def"
  shows "imageReference vis cb node st =
     (if referenceType (props node) = ''shortcut'' \<and> \<not> truthy (link (props def))
      then bracketed vis cb node st
      else Inr (h cb (Some node) ''img''
                  (Attrs [(''src'', AStr (normalizeURI cb (Some (link_or_empty def)))),
                          (''alt'', AStr (js_str (alt (props node)))),
                          (''title'', attr_opt (title (props def)))])
                  Absent Absent, st))"
proof (cases "referenceType (props node) = ''shortcut'' \<and> \<not> truthy (link (props def))")
  case True
  then have f: "failsafe vis cb node def st = bracketed vis cb node st"
    by (simp add: failsafe_shortcut)
  show ?thesis
  proof (cases "bracketed vis cb node st")
    case (Inl e)
    then show ?thesis unfolding if_P[OF True] by (simp add: imageReference_def assms f)
  next
    case (Inr r)
    obtain s st' where r: "r = (s, st')" by (cases r)
    with Inr have "s \<noteq> []" using bracketed_nonempty by blast
    then show ?thesis unfolding if_P[OF True] using Inr r by (simp add: imageReference_def assms f)
  qed
next
  case False
  then have fs: "failsafe vis cb node def st = Inr ([], st)"
    by (rule failsafe_other)
  show ?thesis unfolding if_not_P[OF False] by (simp add: imageReference_def assms fs)
qed

text \<open>
  C7 does not hold of the code, and the code departs from its own documentation there.
  \<open>failsafe\<close> is documented to return a string for a reference without definition and
  nothing otherwise, but it tests \<open>!definition.link\<close>: for a shortcut reference whose
  definition exists and has an empty link it returns the bracketed source form, where
  the claim and the documentation give the anchor built from that definition. The same
  reference in full form gets that anchor.
\<close>

theorem shortcut_empty_link_counterexample:
  \<open>(case prepass empty_link_tree of
      Inl e \<Rightarrow> Inl e
    | Inr st \<Rightarrow> resolve st (ref_node ''linkReference'' ''x'' ''shortcut'' [leaf ''text'' ''x'']))
     = Inr (Node (blank\<lparr>ntype := ''definition'', ident := Some ''x'', link := Some [],
                          title := Some ''T''\<rparr>) None) \<and>
   output_of (compile 3 cb_spec empty_link_tree) = Inr ''<p>[x]</p>\<newline>'' \<and>
   output_of (compile 3 cb_spec
      (parent_node ''root''
         [parent_node ''paragraph'' [ref_node ''linkReference'' ''x'' ''full'' [leaf ''text'' ''x'']],
          Node (blank\<lparr>ntype := ''definition'', ident := Some ''x'', link := Some [],
                        title := Some ''T''\<rparr>) None]))
     = Inr ''<p><a title="T">x</a></p>\<newline>''\<close>
  by code_simp

section \<open>How a compilation changes the state\<close>

lemma next_identifier_bound: "next_identifier used 1 \<le> Suc (length used)"
proof -
  let ?k = "next_identifier used 1"
  let ?f = "\<lambda>j. Some (string_of_nat j)"
  have "?f ` {1..<?k} \<subseteq> set used"
    using next_identifier_least[of 1 _ used] by auto
  then have "card (?f ` {1..<?k}) \<le> card (set used)"
    by (intro card_mono) simp_all
  moreover have "inj_on ?f {1..<?k}"
    by (rule inj_onI) (simp add: string_of_nat_inj)
  then have "card (?f ` {1..<?k}) = ?k - 1"
    by (simp add: card_image)
  moreover have "card (set used) \<le> length used" by (rule card_length)
  ultimately show ?thesis by simp
qed

lemma least_unused_next:
  "least_unused used (string_of_nat (next_identifier used 1))"
  unfolding least_unused_def
proof (rule bexI[of _ "next_identifier used 1"], intro conjI ballI)
  show "string_of_nat (next_identifier used 1) = string_of_nat (next_identifier used 1)" ..
  show "Some (string_of_nat (next_identifier used 1)) \<notin> set used"
    by (rule next_identifier_unused)
  show "\<And>j. j \<in> {1..<next_identifier used 1} \<Longrightarrow> Some (string_of_nat j) \<in> set used"
    using next_identifier_least[of 1 _ used] by auto
  show "next_identifier used 1 \<in> {1..Suc (length used)}"
    using next_identifier_ge[of 1 used] next_identifier_bound[of used] by simp
qed

lemma least_unused_fresh: "least_unused used i \<Longrightarrow> Some i \<notin> set used"
  by (auto simp: least_unused_def)

lemma allocated_from_append:
  "allocated_from used xs \<Longrightarrow> allocated_from (used @ xs) ys \<Longrightarrow> allocated_from used (xs @ ys)"
  by (induction xs arbitrary: used) auto

lemma allocated_from_distinct:
  "allocated_from used new \<Longrightarrow> distinct used \<Longrightarrow> distinct (used @ new)"
proof (induction new arbitrary: used)
  case Nil
  then show ?case by simp
next
  case (Cons i new)
  then have "i \<notin> set used" and "allocated_from (used @ [i]) new"
    by (auto simp: least_unused_fresh split: option.splits)
  with Cons.prems(2) have "distinct (used @ [i])" by simp
  from Cons.IH[OF \<open>allocated_from (used @ [i]) new\<close> this] show ?case by simp
qed

lemma extends_refl: "extends Q st st"
  by (simp add: extends_def)

lemma extends_trans:
  assumes "extends Q a b" and "extends Q b c"
  shows "extends Q a c"
proof -
  from assms(1) obtain n1 where
    d1: "definitions b = definitions a" and f1: "footnotes b = footnotes a @ n1" and
    a1: "allocated_from (store_ids a) (map (\<lambda>d. ident (props d)) n1)" and q1: "\<forall>r \<in> set n1. Q r"
    by (auto simp: extends_def)
  from assms(2) obtain n2 where
    d2: "definitions c = definitions b" and f2: "footnotes c = footnotes b @ n2" and
    a2: "allocated_from (store_ids b) (map (\<lambda>d. ident (props d)) n2)" and q2: "\<forall>r \<in> set n2. Q r"
    by (auto simp: extends_def)
  have sb: "store_ids b = store_ids a @ map (\<lambda>d. ident (props d)) n1"
    by (simp add: store_ids_def f1)
  have "allocated_from (store_ids a) (map (\<lambda>d. ident (props d)) (n1 @ n2))"
    using allocated_from_append[OF a1] a2 sb by simp
  moreover have "footnotes c = footnotes a @ (n1 @ n2)" by (simp add: f1 f2)
  moreover have "\<forall>r \<in> set (n1 @ n2). Q r" using q1 q2 by auto
  ultimately show ?thesis unfolding extends_def using d1 d2 by metis
qed

lemma all_loop_extends:
  assumes "good N Q vis"
  shows "\<forall>n \<in> set ns. N n \<Longrightarrow> all_loop vis cb parent prev ns vals st = Inr (r, st')
         \<Longrightarrow> extends Q st st'"
proof (induction ns arbitrary: prev vals st)
  case Nil
  then show ?case by (simp add: extends_refl)
next
  case (Cons n ns)
  from Cons.prems(2) obtain v st1 where
    v: "vis n parent st = Inr (v, st1)" and
    rest: "all_loop vis cb parent (Some n) ns
            (if v \<noteq> [] then vals @ [if after_break prev then trim_left cb v else v] else vals) st1
           = Inr (r, st')"
    by (auto split: sum.splits)
  have "extends Q st st1" using assms Cons.prems(1) v by (auto simp: good_def)
  moreover have "extends Q st1 st'" using Cons.IH[OF _ rest] Cons.prems(1) by simp
  ultimately show ?case by (rule extends_trans)
qed

lemma all_joined_extends:
  assumes "good N Q vis" and "\<forall>n \<in> set (kids parent). N n"
    and "all_joined vis cb sep parent st = Inr (s, st')"
  shows "extends Q st st'"
proof -
  from assms(3) obtain ns vals where
    c: "children parent = Some ns" and
    l: "all_loop vis cb parent None ns [] st = Inr (vals, st')"
    by (auto simp: all_joined_def all_nodes_def split: sum.splits option.splits)
  from assms(2) c have "\<forall>n \<in> set ns. N n" by (simp add: kids_def)
  from all_loop_extends[OF assms(1) this l] show ?thesis .
qed

lemma sound_kids: "sound N Q \<Longrightarrow> N n \<Longrightarrow> \<forall>c \<in> set (kids n). N c"
  by (simp add: sound_def)

lemma joined_then_extends:
  assumes "good N Q vis" and "\<forall>n \<in> set (kids node). N n"
    and "(case all_joined vis cb sep node st of
            Inl e \<Rightarrow> Inl e
          | Inr (s, st1) \<Rightarrow> Inr (f s, st1)) = Inr (v, st')"
  shows "extends Q st st'"
proof -
  from assms(3) obtain s where "all_joined vis cb sep node st = Inr (s, st')"
    by (auto split: sum.splits)
  from all_joined_extends[OF assms(1,2) this] show ?thesis .
qed

lemma blockquote_extends:
  "good N Q vis \<Longrightarrow> sound N Q \<Longrightarrow> N node \<Longrightarrow> blockquote vis cb node st = Inr (v, st')
     \<Longrightarrow> extends Q st st'"
  unfolding blockquote_def by (rule joined_then_extends) (auto dest: sound_kids)

lemma list_c_extends:
  "good N Q vis \<Longrightarrow> sound N Q \<Longrightarrow> N node \<Longrightarrow> list_c vis cb node st = Inr (v, st')
     \<Longrightarrow> extends Q st st'"
  unfolding list_c_def by (rule joined_then_extends) (auto dest: sound_kids)

lemma heading_extends:
  "good N Q vis \<Longrightarrow> sound N Q \<Longrightarrow> N node \<Longrightarrow> heading vis cb node st = Inr (v, st')
     \<Longrightarrow> extends Q st st'"
  unfolding heading_def by (rule joined_then_extends) (auto dest: sound_kids)

lemma paragraph_c_extends:
  "good N Q vis \<Longrightarrow> sound N Q \<Longrightarrow> N node \<Longrightarrow> paragraph_c vis cb node st = Inr (v, st')
     \<Longrightarrow> extends Q st st'"
  unfolding paragraph_c_def by (rule joined_then_extends) (auto dest: sound_kids)

lemma inline_wrap_extends:
  "good N Q vis \<Longrightarrow> sound N Q \<Longrightarrow> N node \<Longrightarrow> inline_wrap tag vis cb node st = Inr (v, st')
     \<Longrightarrow> extends Q st st'"
  unfolding inline_wrap_def by (rule joined_then_extends) (auto dest: sound_kids)

lemma link_c_extends:
  "good N Q vis \<Longrightarrow> sound N Q \<Longrightarrow> N node \<Longrightarrow> link_c vis cb node st = Inr (v, st')
     \<Longrightarrow> extends Q st st'"
  unfolding link_c_def by (rule joined_then_extends) (auto dest: sound_kids)

lemma listItem_extends:
  assumes "good N Q vis" and "sound N Q" and "\<forall>c \<in> set (kids node). N c"
    and "listItem vis cb node parent st = Inr (v, st')"
  shows "extends Q st st'"
proof -
  from assms(4) obtain cs where cs: "children node = Some cs"
    by (auto simp: listItem_def split: option.splits)
  let ?target = "if single cs parent then hd cs else node"
  have k: "\<forall>n \<in> set (kids ?target). N n"
  proof (cases "single cs parent")
    case True
    then obtain c where "cs = [c]" by (auto simp: single_iff)
    with assms(3) cs have "N c" by (simp add: kids_def)
    with assms(2) have "\<forall>n \<in> set (kids c). N n" by (rule sound_kids)
    with True \<open>cs = [c]\<close> show ?thesis by simp
  next
    case False
    with assms(3) show ?thesis by simp
  qed
  from assms(4) cs have
    "(case all_joined vis cb (if single cs parent then [] else [CHR 0x0A]) ?target st of
        Inl e \<Rightarrow> Inl e
      | Inr (s, st1) \<Rightarrow>
          Inr (h cb (Some node) ''li'' (Str s) (Flag (\<not> single cs parent)) Absent, st1))
     = Inr (v, st')"
    by (simp add: listItem_def)
  from joined_then_extends[OF assms(1) k this] show ?thesis .
qed

lemma footnote_extends:
  assumes "sound N Q" and "N node" and "ntype (props node) = ''footnote''"
    and "footnote cb node st = Inr (v, st')"
  shows "extends Q st st'"
proof -
  let ?i = "string_of_nat (next_identifier (store_ids st) 1)"
  let ?r = "Node (blank\<lparr>ntype := ''footnoteDefinition'', ident := Some ?i\<rparr>) (children node)"
  from assms(4) have st': "st' = st\<lparr>footnotes := footnotes st @ [?r]\<rparr>"
    by (simp add: footnote_def Let_def store_ids_def)
  have "Q ?r" using assms(1,2,3) by (simp add: sound_def)
  moreover have "allocated_from (store_ids st) (map (\<lambda>d. ident (props d)) [?r])"
    using least_unused_next[of "store_ids st"] by simp
  ultimately show ?thesis
    unfolding extends_def st' by (intro conjI exI[of _ "[?r]"]) simp_all
qed

lemma failsafe_extends:
  assumes "good N Q vis" and "\<forall>n \<in> set (kids node). N n"
    and "failsafe vis cb node def st = Inr (v, st')"
  shows "extends Q st st'"
proof (cases "referenceType (props node) = ''shortcut'' \<and> \<not> truthy (link (props def))")
  case False
  with assms(3) have "st' = st" by (auto simp: failsafe_def)
  then show ?thesis by (simp add: extends_refl)
next
  case True
  show ?thesis
  proof (cases "children node")
    case None
    with True assms(3) have "st' = st" by (auto simp: failsafe_def)
    then show ?thesis by (simp add: extends_refl)
  next
    case (Some cs)
    with True assms(3) obtain s where "all_joined vis cb [] node st = Inr (s, st')"
      by (auto simp: failsafe_def split: sum.splits)
    from all_joined_extends[OF assms(1,2) this] show ?thesis .
  qed
qed

lemma linkReference_extends:
  assumes "good N Q vis" and "sound N Q" and "N node"
    and "linkReference vis cb node st = Inr (v, st')"
  shows "extends Q st st'"
proof -
  have k: "\<forall>n \<in> set (kids node). N n" using assms(2,3) by (rule sound_kids)
  from assms(4) obtain def f st1 where
    d: "resolve st node = Inr def" and
    f: "failsafe vis cb node def st = Inr (f, st1)"
    by (auto simp: linkReference_def split: sum.splits)
  have e1: "extends Q st st1" using assms(1) k f by (rule failsafe_extends)
  show ?thesis
  proof (cases "f \<noteq> []")
    case True
    with assms(4) d f have "st' = st1" by (simp add: linkReference_def)
    with e1 show ?thesis by simp
  next
    case False
    with assms(4) d f obtain s where "all_joined vis cb [] node st1 = Inr (s, st')"
      by (auto simp: linkReference_def split: sum.splits)
    from all_joined_extends[OF assms(1) k this] have "extends Q st1 st'" .
    with e1 show ?thesis by (rule extends_trans)
  qed
qed

lemma imageReference_extends:
  assumes "good N Q vis" and "sound N Q" and "N node"
    and "imageReference vis cb node st = Inr (v, st')"
  shows "extends Q st st'"
proof -
  have k: "\<forall>n \<in> set (kids node). N n" using assms(2,3) by (rule sound_kids)
  from assms(4) obtain def f st1 where
    d: "resolve st node = Inr def" and
    f: "failsafe vis cb node def st = Inr (f, st1)"
    by (auto simp: imageReference_def split: sum.splits)
  have e1: "extends Q st st1" using assms(1) k f by (rule failsafe_extends)
  from assms(4) d f have "st' = st1"
    by (auto simp: imageReference_def split: if_splits)
  with e1 show ?thesis by simp
qed

lemma cells_loop_extends:
  assumes "good N Q vis" and "sound N Q"
  shows "\<forall>c \<in> set (case row of None \<Rightarrow> [] | Some cells \<Rightarrow> cells). N c \<Longrightarrow>
         cells_loop vis cb al name row pos out st = Inr (r, st') \<Longrightarrow> extends Q st st'"
proof (induction pos arbitrary: out st)
  case 0
  then show ?case by (simp add: extends_refl)
next
  case (Suc pos)
  from Suc.prems(2) obtain cells where row: "row = Some cells"
    by (auto split: option.splits)
  let ?cell = "if pos < length cells then Some (cells ! pos) else None"
  from Suc.prems(2) row obtain content st1 where
    step: "(case ?cell of None \<Rightarrow> Inr ([], st)
              | Some c \<Rightarrow> all_joined vis cb [CHR 0x0A] c st) = Inr (content, st1)" and
    rest: "cells_loop vis cb al name row pos
             (js_set out pos (h cb ?cell name
                (Attrs [(''align'', if pos < length al then al ! pos else ANull)])
                (Str content) Absent)) st1 = Inr (r, st')"
    by (auto simp: Let_def split: sum.splits)
  have "extends Q st st1"
  proof (cases "pos < length cells")
    case True
    with Suc.prems(1) row have "N (cells ! pos)" by simp
    with assms(2) have "\<forall>n \<in> set (kids (cells ! pos)). N n" by (rule sound_kids)
    moreover from step True have "all_joined vis cb [CHR 0x0A] (cells ! pos) st = Inr (content, st1)"
      by simp
    ultimately show ?thesis using assms(1) all_joined_extends by blast
  next
    case False
    with step show ?thesis by (simp add: extends_refl)
  qed
  moreover have "extends Q st1 st'" using Suc.IH[OF Suc.prems(1) rest] .
  ultimately show ?case by (rule extends_trans)
qed

lemma rows_loop_extends:
  assumes "good N Q vis" and "sound N Q" and "\<forall>r \<in> set rows. N r"
  shows "index \<le> length rows \<Longrightarrow>
         rows_loop vis cb al rows index result st = Inr (r, st') \<Longrightarrow> extends Q st st'"
proof (induction index arbitrary: result st)
  case 0
  then show ?case by (simp add: extends_refl)
next
  case (Suc index)
  from Suc.prems(2) obtain out st1 where
    cells: "cells_loop vis cb al (if index = 0 then ''th'' else ''td'')
              (children (rows ! index)) (length al) [] st = Inr (out, st1)" and
    rest: "rows_loop vis cb al rows index
             (js_set result index
                (h cb (Some (rows ! index)) ''tr'' (Str (js_join [CHR 0x0A] out)) (Flag True) Absent))
             st1 = Inr (r, st')"
    by (auto split: sum.splits)
  from Suc.prems(1) assms(3) have "N (rows ! index)" by simp
  with assms(2) have "\<forall>c \<in> set (kids (rows ! index)). N c" by (rule sound_kids)
  then have "\<forall>c \<in> set (case children (rows ! index) of None \<Rightarrow> [] | Some cells \<Rightarrow> cells). N c"
    by (simp add: kids_def)
  from cells_loop_extends[OF assms(1,2) this cells] have "extends Q st st1" .
  moreover from Suc.prems(1) have "index \<le> length rows" by simp
  from Suc.IH[OF this rest] have "extends Q st1 st'" .
  ultimately show ?case by (rule extends_trans)
qed

lemma table_extends:
  assumes "good N Q vis" and "sound N Q" and "N node"
    and "table vis cb node st = Inr (v, st')"
  shows "extends Q st st'"
proof -
  from assms(4) obtain rows al result where
    rows: "children node = Some rows" and
    l: "rows_loop vis cb al rows (length rows) [] st = Inr (result, st')"
    by (auto simp: table_def split: option.splits sum.splits)
  from sound_kids[OF assms(2,3)] rows have "\<forall>r \<in> set rows. N r" by (simp add: kids_def)
  from rows_loop_extends[OF assms(1,2) this _ l] show ?thesis by simp
qed

lemma visitors_root: "map_of visitors t = Some Root \<Longrightarrow> t = ''root''"
  by (auto simp: visitors_def split: if_splits)

lemma visitors_footnote: "map_of visitors t = Some Footnote \<Longrightarrow> t = ''footnote''"
  by (auto simp: visitors_def split: if_splits)

lemma run_extends:
  assumes "good N Q vis" and "sound N Q" and "N node"
    and "map_of visitors (ntype (props node)) = Some c"
    and "run c vis cb node parent st = Inr (v, st')"
  shows "extends Q st st'"
proof (cases c)
  case Footnote
  with assms(4) have "ntype (props node) = ''footnote''" by (simp add: visitors_footnote)
  with Footnote assms show ?thesis by (auto intro: footnote_extends)
next
  case Root
  with assms(4) have "ntype (props node) = ''root''" by (simp add: visitors_root)
  with assms(2,3) show ?thesis by (simp add: sound_def)
next
  case Blockquote
  with assms show ?thesis by (auto intro: blockquote_extends)
next
  case ListC
  with assms show ?thesis by (auto intro: list_c_extends)
next
  case ListItem
  with assms show ?thesis by (auto intro: listItem_extends dest: sound_kids)
next
  case Paragraph
  with assms show ?thesis by (auto intro: paragraph_c_extends)
next
  case Heading
  with assms show ?thesis by (auto intro: heading_extends)
next
  case Table
  with assms show ?thesis by (auto intro: table_extends)
next
  case Strong
  with assms show ?thesis by (auto simp: strong_def intro: inline_wrap_extends)
next
  case Emphasis
  with assms show ?thesis by (auto simp: emphasis_def intro: inline_wrap_extends)
next
  case Link
  with assms show ?thesis by (auto intro: link_c_extends)
next
  case LinkReference
  with assms show ?thesis by (auto intro: linkReference_extends)
next
  case ImageReference
  with assms show ?thesis by (auto intro: imageReference_extends)
next
  case Strikethrough
  with assms show ?thesis by (auto simp: strikethrough_def intro: inline_wrap_extends)
qed (use assms(5) in \<open>auto simp: extends_refl\<close>)

lemma dispatch_good:
  assumes "good N Q vis" and "sound N Q"
  shows "good N Q (dispatch vis cb)"
  unfolding good_def
proof (intro allI impI)
  fix n p st v st'
  assume n: "N n" and d: "dispatch vis cb n p st = Inr (v, st')"
  from d obtain c where c: "map_of visitors (ntype (props n)) = Some c" and
    r: "run c vis cb n p st = Inr (v, st')"
    by (auto simp: dispatch_def split: option.splits)
  from run_extends[OF assms n c r] show "extends Q st st'" .
qed

lemma visit_good: "sound N Q \<Longrightarrow> good N Q (visit k cb)"
proof (induction k)
  case 0
  show ?case by (simp add: good_def)
next
  case (Suc k)
  then show ?case by (simp add: dispatch_good)
qed

lemma generate_loop_extends:
  assumes "good N Q vis" and "sound N Q"
  shows "\<forall>r \<in> set defs. Q r \<Longrightarrow> generate_loop vis cb defs results st = Inr (r, st')
         \<Longrightarrow> extends Q st st'"
proof (induction defs arbitrary: results st)
  case Nil
  then show ?case by (simp add: extends_refl)
next
  case (Cons d defs)
  from Cons.prems(2) obtain cs item st1 where
    cs: "children d = Some cs" and
    item: "listItem vis cb (footnote_item d cs) empty_object st = Inr (item, st1)" and
    rest: "generate_loop vis cb defs (results @ [item]) st1 = Inr (r, st')"
    by (auto split: option.splits sum.splits)
  from Cons.prems(1) have "Q d" by simp
  with assms(2) have "\<forall>c \<in> set (kids d). N c" by (simp add: sound_def)
  with cs have "\<forall>c \<in> set cs. N c" by (simp add: kids_def)
  moreover from assms(2) have "N (backref (ident (props d)))" by (simp add: sound_def)
  ultimately have "\<forall>c \<in> set (kids (footnote_item d cs)). N c"
    by (simp add: footnote_item_def kids_def)
  from listItem_extends[OF assms this item] have "extends Q st st1" .
  moreover from Cons.IH[OF _ rest] Cons.prems(1) have "extends Q st1 st'" by simp
  ultimately show ?case by (rule extends_trans)
qed

lemma generateFootnotes_extends:
  assumes "good N Q vis" and "sound N Q" and "\<forall>r \<in> set (footnotes st). Q r"
    and "generateFootnotes vis cb st = Inr (v, st')"
  shows "extends Q st st'"
proof (cases "footnotes st = []")
  case True
  with assms(4) show ?thesis by (simp add: generateFootnotes_def extends_refl)
next
  case False
  with assms(4) obtain results where
    "generate_loop vis cb (footnotes st) [] st = Inr (results, st')"
    by (auto simp: generateFootnotes_def split: sum.splits)
  from generate_loop_extends[OF assms(1,2,3) this] show ?thesis .
qed

lemma prepass_footnotes:
  "prepass node = Inr st0 \<Longrightarrow> footnotes st0 = collect ''footnoteDefinition'' node"
  by (auto simp: prepass_def split: sum.splits)

lemma root_extends:
  assumes "good N Q vis" and "sound N Q" and "\<forall>c \<in> set (kids node). N c"
    and "\<forall>r \<in> set (collect ''footnoteDefinition'' node). Q r"
    and "root vis cb node st = Inr (v, st')"
  shows "\<exists>st0. prepass node = Inr st0 \<and> extends Q st0 st'"
proof -
  from assms(5) obtain st0 result st1 fs where
    p: "prepass node = Inr st0" and
    a: "all_joined vis cb [CHR 0x0A] node st0 = Inr (result, st1)" and
    g: "generateFootnotes vis cb st1 = Inr (fs, st')"
    by (auto simp: root_def split: sum.splits)
  from all_joined_extends[OF assms(1,3) a] have e1: "extends Q st0 st1" .
  then obtain new where "footnotes st1 = footnotes st0 @ new" and "\<forall>r \<in> set new. Q r"
    by (auto simp: extends_def)
  with assms(4) have "\<forall>r \<in> set (footnotes st1). Q r" by (auto simp: prepass_footnotes[OF p])
  from generateFootnotes_extends[OF assms(1,2) this g] have "extends Q st1 st'" .
  with e1 have "extends Q st0 st'" by (rule extends_trans)
  with p show ?thesis by blast
qed

section \<open>Trees with their only root at the top\<close>

lemma noroot_kids: "noroot n \<Longrightarrow> \<forall>c \<in> set (kids n). noroot c"
  by (cases n) (auto simp: kids_def split: option.splits)

lemma noroot_backref: "noroot (backref i)"
  by (simp add: backref_def blank_def)

lemma sound_noroot: "sound noroot (\<lambda>r. \<forall>c \<in> set (kids r). noroot c)"
  unfolding sound_def
proof (intro conjI allI impI)
  fix n assume "noroot n"
  then show "ntype (props n) \<noteq> ''root''" by (cases n) simp
  from \<open>noroot n\<close> show "\<forall>c \<in> set (kids n). noroot c" by (rule noroot_kids)
next
  fix n p assume "noroot n \<and> ntype (props n) = ''footnote''"
  then show "\<forall>c \<in> set (kids (Node p (children n))). noroot c"
    using noroot_kids[of n] by (simp add: kids_def)
next
  fix r assume "\<forall>c \<in> set (kids r). noroot c"
  then show "\<forall>c \<in> set (kids r). noroot c" .
next
  fix i show "noroot (backref i)" by (rule noroot_backref)
qed

lemma collect_noroot: "noroot n \<Longrightarrow> m \<in> set (collect t n) \<Longrightarrow> noroot m"
proof (induction t n rule: collect.induct)
  case (1 t p cs)
  show ?case
  proof (cases "m = Node p cs")
    case True
    with 1(2) show ?thesis by simp
  next
    case False
    with 1(3) obtain ns c where cs: "cs = Some ns" and c: "c \<in> set ns" and m: "m \<in> set (collect t c)"
      by (auto split: if_splits option.splits)
    from 1(2) cs c have "noroot c" by simp
    from "1.IH"[OF cs c this m] show ?thesis .
  qed
qed

lemma collect_kids_noroot:
  assumes "\<forall>c \<in> set (kids tree). noroot c" and "r \<in> set (collect t tree)"
  shows "\<forall>c \<in> set (kids r). noroot c"
proof (cases "r = tree")
  case True
  with assms(1) show ?thesis by simp
next
  case False
  obtain p cs where tree: "tree = Node p cs" by (cases tree)
  with assms(2) False obtain ns c where cs: "cs = Some ns" and c: "c \<in> set ns"
      and r: "r \<in> set (collect t c)"
    by (auto split: if_splits option.splits)
  from assms(1) tree cs c have "noroot c" by (simp add: kids_def)
  from collect_noroot[OF this r] show ?thesis by (rule noroot_kids)
qed

section \<open>The footnote store after a compilation\<close>

lemma grows_refl: "grows [] st st"
  by (simp add: grows_def)

lemma grows_definitions: "grows fs st st' \<Longrightarrow> definitions st' = definitions st"
  by (simp add: grows_def)

lemma grows_trans:
  assumes "grows fs a b" and "grows gs b c"
  shows "grows (fs @ gs) a c"
proof -
  from assms(1) obtain n1 where
    d1: "definitions b = definitions a" and f1: "footnotes b = footnotes a @ n1" and
    c1: "map children n1 = map children fs" and
    k1: "list_all (\<lambda>r. ntype (props r) = ''footnoteDefinition'') n1" and
    a1: "allocated_from (store_ids a) (map (\<lambda>d. ident (props d)) n1)"
    by (auto simp: grows_def)
  from assms(2) obtain n2 where
    d2: "definitions c = definitions b" and f2: "footnotes c = footnotes b @ n2" and
    c2: "map children n2 = map children gs" and
    k2: "list_all (\<lambda>r. ntype (props r) = ''footnoteDefinition'') n2" and
    a2: "allocated_from (store_ids b) (map (\<lambda>d. ident (props d)) n2)"
    by (auto simp: grows_def)
  have sb: "store_ids b = store_ids a @ map (\<lambda>d. ident (props d)) n1"
    by (simp add: store_ids_def f1)
  have "allocated_from (store_ids a) (map (\<lambda>d. ident (props d)) (n1 @ n2))"
    using allocated_from_append[OF a1] a2 sb by simp
  moreover have "footnotes c = footnotes a @ (n1 @ n2)" by (simp add: f1 f2)
  moreover have "map children (n1 @ n2) = map children (fs @ gs)" by (simp add: c1 c2)
  moreover have "list_all (\<lambda>r. ntype (props r) = ''footnoteDefinition'') (n1 @ n2)"
    using k1 k2 by simp
  moreover have "definitions c = definitions a" by (simp add: d1 d2)
  ultimately show ?thesis unfolding grows_def by blast
qed

text \<open>What is reached from a node, by the kind of the node.\<close>

lemma reach_footnote: "ntype (props n) = ''footnote'' \<Longrightarrow> reach D p n = [n]"
  by (subst reach.simps) simp

lemma reach_walked:
  "ntype (props n) \<noteq> ''footnote'' \<Longrightarrow> reach D p n = concat (map (reach_below D) (walked D p n))"
proof -
  assume t: "ntype (props n) \<noteq> ''footnote''"
  have "reach_below D = (\<lambda>m. concat (map (reach D m) (kids m)))"
    by (rule ext) (simp add: reach_below_def)
  with t show ?thesis by (subst reach.simps) simp
qed

lemma reach_own:
  "ntype (props n) \<in> set [''blockquote'', ''list'', ''paragraph'', ''heading'',
      ''strong'', ''emphasis'', ''delete'', ''link'', ''linkReference'']
   \<Longrightarrow> reach D p n = reach_below D n"
proof -
  assume t: "ntype (props n) \<in> set [''blockquote'', ''list'', ''paragraph'', ''heading'',
      ''strong'', ''emphasis'', ''delete'', ''link'', ''linkReference'']"
  then have "ntype (props n) \<noteq> ''footnote''" by auto
  moreover from t have "walked D p n = [n]" unfolding walked_def by (simp only: if_True)
  ultimately show ?thesis by (simp add: reach_walked)
qed

lemma reach_listItem:
  "ntype (props n) = ''listItem'' \<Longrightarrow>
   reach D p n = reach_below D (if single (kids n) p then hd (kids n) else n)"
  by (simp add: reach_walked walked_def)

lemma reach_imageReference:
  "ntype (props n) = ''imageReference'' \<Longrightarrow>
   reach D p n =
     (if referenceType (props n) = ''shortcut'' \<and> \<not> truthy (link (props (lookup D n))) \<and>
         children n \<noteq> None
      then reach_below D n else [])"
  by (auto simp: reach_walked walked_def)

lemma concat_map_concat:
  "concat (map g (concat xss)) = concat (map (\<lambda>xs. concat (map g xs)) xss)"
  by (induction xss) simp_all

lemma reach_table:
  "ntype (props n) = ''table'' \<Longrightarrow> align (props n) = Some al \<Longrightarrow>
   reach D p n =
     concat (map (\<lambda>row. concat (map (reach_below D) (rev (take (length al) (kids row)))))
               (rev (kids n)))"
  by (simp add: reach_walked walked_def concat_map_concat[of "reach_below D"] o_def)

lemma reach_leaf:
  "ntype (props n) \<notin> set [''footnote'', ''blockquote'', ''list'', ''paragraph'', ''heading'',
      ''strong'', ''emphasis'', ''delete'', ''link'', ''linkReference'', ''listItem'',
      ''imageReference'', ''table'']
   \<Longrightarrow> reach D p n = []"
  by (simp add: reach_walked walked_def)

lemma reach_below_None: "children m = None \<Longrightarrow> reach_below D m = []"
  by (simp add: reach_below_def kids_def)

lemma reach_parent:
  "loose (props p) = loose (props q) \<Longrightarrow> reach D p n = reach D q n"
proof -
  assume l: "loose (props p) = loose (props q)"
  have w: "walked D p n = walked D q n" by (simp add: walked_def single_def l)
  show ?thesis by (simp add: reach.simps[of D p n] reach.simps[of D q n] w)
qed

text \<open>The walk over a child sequence.\<close>

lemma all_loop_tracks:
  assumes "tracks D vis"
  shows "\<forall>n \<in> set ns. noroot n \<Longrightarrow> definitions st = D \<Longrightarrow>
         all_loop vis cb parent prev ns vals st = Inr (r, st') \<Longrightarrow>
         grows (concat (map (reach D parent) ns)) st st'"
proof (induction ns arbitrary: prev vals st)
  case Nil
  then show ?case by (simp add: grows_refl)
next
  case (Cons n ns)
  from Cons.prems(3) obtain v st1 where
    v: "vis n parent st = Inr (v, st1)" and
    rest: "all_loop vis cb parent (Some n) ns
            (if v \<noteq> [] then vals @ [if after_break prev then trim_left cb v else v] else vals) st1
           = Inr (r, st')"
    by (auto split: sum.splits)
  have g1: "grows (reach D parent n) st st1"
    using assms Cons.prems(1,2) v by (auto simp: tracks_def)
  then have d1: "definitions st1 = D" using Cons.prems(2) by (simp add: grows_def)
  have "grows (concat (map (reach D parent) ns)) st1 st'"
    using Cons.IH[OF _ d1 rest] Cons.prems(1) by simp
  with g1 have "grows (reach D parent n @ concat (map (reach D parent) ns)) st st'"
    by (rule grows_trans)
  then show ?case by simp
qed

lemma all_joined_tracks:
  assumes "tracks D vis" and "\<forall>n \<in> set (kids m). noroot n" and "definitions st = D"
    and "all_joined vis cb sep m st = Inr (s, st')"
  shows "grows (reach_below D m) st st'"
proof -
  from assms(4) obtain ns vals where
    c: "children m = Some ns" and
    l: "all_loop vis cb m None ns [] st = Inr (vals, st')"
    by (auto simp: all_joined_def all_nodes_def split: sum.splits option.splits)
  from c have k: "kids m = ns" by (simp add: kids_def)
  from assms(2) k have "\<forall>n \<in> set ns. noroot n" by simp
  from all_loop_tracks[OF assms(1) this assms(3) l] k show ?thesis
    by (simp add: reach_below_def)
qed

lemma joined_then_tracks:
  assumes "tracks D vis" and "noroot node" and "definitions st = D"
    and "(case all_joined vis cb sep node st of
            Inl e \<Rightarrow> Inl e
          | Inr (s, st1) \<Rightarrow> Inr (f s, st1)) = Inr (v, st')"
  shows "grows (reach_below D node) st st'"
proof -
  from assms(4) obtain s where "all_joined vis cb sep node st = Inr (s, st')"
    by (auto split: sum.splits)
  from all_joined_tracks[OF assms(1) noroot_kids[OF assms(2)] assms(3) this] show ?thesis .
qed

lemma blockquote_tracks:
  "tracks D vis \<Longrightarrow> noroot node \<Longrightarrow> definitions st = D \<Longrightarrow>
   blockquote vis cb node st = Inr (v, st') \<Longrightarrow> grows (reach_below D node) st st'"
  unfolding blockquote_def by (rule joined_then_tracks)

lemma list_c_tracks:
  "tracks D vis \<Longrightarrow> noroot node \<Longrightarrow> definitions st = D \<Longrightarrow>
   list_c vis cb node st = Inr (v, st') \<Longrightarrow> grows (reach_below D node) st st'"
  unfolding list_c_def by (rule joined_then_tracks)

lemma heading_tracks:
  "tracks D vis \<Longrightarrow> noroot node \<Longrightarrow> definitions st = D \<Longrightarrow>
   heading vis cb node st = Inr (v, st') \<Longrightarrow> grows (reach_below D node) st st'"
  unfolding heading_def by (rule joined_then_tracks)

lemma paragraph_c_tracks:
  "tracks D vis \<Longrightarrow> noroot node \<Longrightarrow> definitions st = D \<Longrightarrow>
   paragraph_c vis cb node st = Inr (v, st') \<Longrightarrow> grows (reach_below D node) st st'"
  unfolding paragraph_c_def by (rule joined_then_tracks)

lemma inline_wrap_tracks:
  "tracks D vis \<Longrightarrow> noroot node \<Longrightarrow> definitions st = D \<Longrightarrow>
   inline_wrap tag vis cb node st = Inr (v, st') \<Longrightarrow> grows (reach_below D node) st st'"
  unfolding inline_wrap_def by (rule joined_then_tracks)

lemma link_c_tracks:
  "tracks D vis \<Longrightarrow> noroot node \<Longrightarrow> definitions st = D \<Longrightarrow>
   link_c vis cb node st = Inr (v, st') \<Longrightarrow> grows (reach_below D node) st st'"
  unfolding link_c_def by (rule joined_then_tracks)

lemma listItem_tracks:
  assumes "tracks D vis" and "\<forall>c \<in> set (kids node). noroot c" and "definitions st = D"
    and "listItem vis cb node parent st = Inr (v, st')"
  shows "grows (reach_below D (if single (kids node) parent then hd (kids node) else node)) st st'"
proof -
  from assms(4) obtain cs where cs: "children node = Some cs"
    by (auto simp: listItem_def split: option.splits)
  then have k: "kids node = cs" by (simp add: kids_def)
  let ?target = "if single cs parent then hd cs else node"
  have kt: "\<forall>n \<in> set (kids ?target). noroot n"
  proof (cases "single cs parent")
    case True
    then obtain c where "cs = [c]" by (auto simp: single_iff)
    with assms(2) k have "noroot c" by simp
    then have "\<forall>n \<in> set (kids c). noroot n" by (rule noroot_kids)
    with True \<open>cs = [c]\<close> show ?thesis by simp
  next
    case False
    with assms(2) show ?thesis by simp
  qed
  from assms(4) cs obtain s where
    "all_joined vis cb (if single cs parent then [] else [CHR 0x0A]) ?target st = Inr (s, st')"
    by (auto simp: listItem_def split: sum.splits)
  from all_joined_tracks[OF assms(1) kt assms(3) this] show ?thesis unfolding k .
qed

lemma footnote_tracks:
  assumes "footnote cb node st = Inr (v, st')"
  shows "grows [node] st st'"
proof -
  let ?i = "string_of_nat (next_identifier (store_ids st) 1)"
  let ?r = "Node (blank\<lparr>ntype := ''footnoteDefinition'', ident := Some ?i\<rparr>) (children node)"
  from assms have st': "st' = st\<lparr>footnotes := footnotes st @ [?r]\<rparr>"
    by (simp add: footnote_def Let_def store_ids_def)
  have "allocated_from (store_ids st) (map (\<lambda>d. ident (props d)) [?r])"
    using least_unused_next[of "store_ids st"] by simp
  then show ?thesis
    unfolding grows_def st' by (intro conjI exI[of _ "[?r]"]) simp_all
qed

lemma resolve_lookup: "resolve st node = Inr def \<Longrightarrow> def = lookup (definitions st) node"
  by (auto simp: resolve_def lookup_def split: option.splits)

lemma bracketed_tracks:
  assumes "tracks D vis" and "noroot node" and "definitions st = D"
    and "bracketed vis cb node st = Inr (f, st')"
  shows "grows (reach_below D node) st st'"
proof (cases "children node")
  case None
  with assms(4) have "st' = st" by (auto simp: bracketed_def)
  with None show ?thesis by (simp add: reach_below_None grows_refl)
next
  case (Some cs)
  with assms(4) obtain s where "all_joined vis cb [] node st = Inr (s, st')"
    by (auto simp: bracketed_def split: sum.splits)
  from all_joined_tracks[OF assms(1) noroot_kids[OF assms(2)] assms(3) this] show ?thesis .
qed

lemma linkReference_tracks:
  assumes "tracks D vis" and "noroot node" and "definitions st = D"
    and "linkReference vis cb node st = Inr (v, st')"
  shows "grows (reach_below D node) st st'"
proof -
  from assms(4) obtain def where d: "resolve st node = Inr def"
    by (auto simp: linkReference_def split: sum.splits)
  show ?thesis
  proof (cases "referenceType (props node) = ''shortcut'' \<and> \<not> truthy (link (props def))")
    case True
    with assms(4) have "bracketed vis cb node st = Inr (v, st')"
      unfolding linkReference_cases[OF d] by simp
    from bracketed_tracks[OF assms(1,2,3) this] show ?thesis .
  next
    case False
    with assms(4) obtain s where "all_joined vis cb [] node st = Inr (s, st')"
      unfolding linkReference_cases[OF d] by (auto split: sum.splits)
    from all_joined_tracks[OF assms(1) noroot_kids[OF assms(2)] assms(3) this] show ?thesis .
  qed
qed

lemma imageReference_tracks:
  assumes "tracks D vis" and "noroot node" and "definitions st = D"
    and "imageReference vis cb node st = Inr (v, st')"
  shows "grows (if referenceType (props node) = ''shortcut'' \<and>
                   \<not> truthy (link (props (lookup D node))) \<and> children node \<noteq> None
                then reach_below D node else []) st st'"
proof -
  from assms(4) obtain def where d: "resolve st node = Inr def"
    by (auto simp: imageReference_def split: sum.splits)
  from resolve_lookup[OF d] assms(3) have l: "lookup D node = def" by simp
  show ?thesis
  proof (cases "referenceType (props node) = ''shortcut'' \<and> \<not> truthy (link (props def))")
    case True
    with assms(4) have "bracketed vis cb node st = Inr (v, st')"
      unfolding imageReference_cases[OF d] by simp
    from bracketed_tracks[OF assms(1,2,3) this] have "grows (reach_below D node) st st'" .
    with True l show ?thesis by (auto simp: reach_below_None)
  next
    case False
    with assms(4) have "st' = st"
      unfolding imageReference_cases[OF d] by auto
    with False l show ?thesis by (auto simp: grows_refl)
  qed
qed

text \<open>A table: the cells of a row from the last column to the first, the rows from the last.\<close>

lemma cells_loop_tracks:
  assumes "tracks D vis"
  shows "\<forall>c \<in> set cells. noroot c \<Longrightarrow> definitions st = D \<Longrightarrow>
         cells_loop vis cb al name (Some cells) pos out st = Inr (r, st') \<Longrightarrow>
         grows (concat (map (reach_below D) (rev (take pos cells)))) st st'"
proof (induction pos arbitrary: out st)
  case 0
  then show ?case by (simp add: grows_refl)
next
  case (Suc pos)
  let ?cell = "if pos < length cells then Some (cells ! pos) else None"
  from Suc.prems(3) obtain content st1 where
    step: "(case ?cell of None \<Rightarrow> Inr ([], st)
              | Some c \<Rightarrow> all_joined vis cb [CHR 0x0A] c st) = Inr (content, st1)" and
    rest: "cells_loop vis cb al name (Some cells) pos
             (js_set out pos (h cb ?cell name
                (Attrs [(''align'', if pos < length al then al ! pos else ANull)])
                (Str content) Absent)) st1 = Inr (r, st')"
    by (auto simp: Let_def split: sum.splits)
  let ?here = "if pos < length cells then reach_below D (cells ! pos) else []"
  have g1: "grows ?here st st1"
  proof (cases "pos < length cells")
    case True
    with Suc.prems(1) have "noroot (cells ! pos)" by simp
    then have k: "\<forall>n \<in> set (kids (cells ! pos)). noroot n" by (rule noroot_kids)
    from step True have "all_joined vis cb [CHR 0x0A] (cells ! pos) st = Inr (content, st1)"
      by simp
    from all_joined_tracks[OF assms k Suc.prems(2) this] True show ?thesis by simp
  next
    case False
    with step show ?thesis by (simp add: grows_refl)
  qed
  then have d1: "definitions st1 = D" using Suc.prems(2) by (simp add: grows_def)
  from Suc.IH[OF Suc.prems(1) d1 rest]
  have g2: "grows (concat (map (reach_below D) (rev (take pos cells)))) st1 st'" .
  have e: "concat (map (reach_below D) (rev (take (Suc pos) cells)))
             = ?here @ concat (map (reach_below D) (rev (take pos cells)))"
    by (simp add: take_Suc_conv_app_nth)
  from grows_trans[OF g1 g2] show ?case unfolding e .
qed

lemma rows_loop_tracks:
  assumes "tracks D vis" and "\<forall>r \<in> set rows. noroot r"
  shows "index \<le> length rows \<Longrightarrow> definitions st = D \<Longrightarrow>
         rows_loop vis cb al rows index result st = Inr (r, st') \<Longrightarrow>
         grows (concat (map (\<lambda>row. concat (map (reach_below D)
                                              (rev (take (length al) (kids row)))))
                          (rev (take index rows)))) st st'"
proof (induction index arbitrary: result st)
  case 0
  then show ?case by (simp add: grows_refl)
next
  case (Suc index)
  let ?row = "rows ! index"
  let ?f = "\<lambda>row. concat (map (reach_below D) (rev (take (length al) (kids row))))"
  from Suc.prems(3) obtain out st1 where
    cells: "cells_loop vis cb al (if index = 0 then ''th'' else ''td'')
              (children ?row) (length al) [] st = Inr (out, st1)" and
    rest: "rows_loop vis cb al rows index
             (js_set result index
                (h cb (Some ?row) ''tr'' (Str (js_join [CHR 0x0A] out)) (Flag True) Absent))
             st1 = Inr (r, st')"
    by (auto split: sum.splits)
  from Suc.prems(1) have i: "index < length rows" by simp
  with assms(2) have "noroot ?row" by simp
  then have nk: "\<forall>c \<in> set (kids ?row). noroot c" by (rule noroot_kids)
  have g1: "grows (?f ?row) st st1"
  proof (cases "children ?row")
    case None
    with cells have "st1 = st \<and> length al = 0" by (cases "length al") auto
    then show ?thesis by (simp add: grows_refl)
  next
    case (Some cs)
    then have k: "kids ?row = cs" by (simp add: kids_def)
    from cells Some have
      "cells_loop vis cb al (if index = 0 then ''th'' else ''td'') (Some cs) (length al) [] st
         = Inr (out, st1)" by simp
    from cells_loop_tracks[OF assms(1) _ Suc.prems(2) this] nk k show ?thesis by simp
  qed
  then have d1: "definitions st1 = D" using Suc.prems(2) by (simp add: grows_def)
  from i have "index \<le> length rows" by simp
  from Suc.IH[OF this d1 rest] have g2: "grows (concat (map ?f (rev (take index rows)))) st1 st'" .
  have e: "concat (map ?f (rev (take (Suc index) rows)))
             = ?f ?row @ concat (map ?f (rev (take index rows)))"
    using i by (simp add: take_Suc_conv_app_nth)
  from grows_trans[OF g1 g2] show ?case unfolding e .
qed

lemma table_tracks:
  assumes "tracks D vis" and "noroot node" and "definitions st = D"
    and "ntype (props node) = ''table''"
    and "table vis cb node st = Inr (v, st')"
  shows "grows (reach D p node) st st'"
proof -
  from assms(5) obtain rows al result where
    rows: "children node = Some rows" and al: "align (props node) = Some al" and
    l: "rows_loop vis cb al rows (length rows) [] st = Inr (result, st')"
    by (auto simp: table_def split: option.splits sum.splits)
  from rows have k: "kids node = rows" by (simp add: kids_def)
  from noroot_kids[OF assms(2)] k have "\<forall>r \<in> set rows. noroot r" by simp
  from rows_loop_tracks[OF assms(1) this _ assms(3) l] show ?thesis
    by (simp add: reach_table[OF assms(4) al] k)
qed

text \<open>The dispatcher.\<close>

lemma run_tracks:
  assumes "tracks D vis" and "noroot node" and "definitions st = D"
    and "map_of visitors (ntype (props node)) = Some c"
    and "run c vis cb node parent st = Inr (v, st')"
  shows "grows (reach D parent node) st st'"
proof (cases c)
  case Footnote
  with assms(4) have "ntype (props node) = ''footnote''" by (simp add: visitors_footnote)
  with Footnote assms(5) show ?thesis by (simp add: reach_footnote footnote_tracks)
next
  case Root
  with assms(4) have "ntype (props node) = ''root''" by (simp add: visitors_root)
  with assms(2) show ?thesis by (cases node) simp
next
  case Blockquote
  with assms(4) have t: "ntype (props node) = ''blockquote''"
    by (auto simp: visitors_def split: if_splits)
  then have "reach D parent node = reach_below D node" by (intro reach_own) simp
  with blockquote_tracks[OF assms(1,2,3)] assms(5) Blockquote show ?thesis by simp
next
  case ListC
  with assms(4) have t: "ntype (props node) = ''list''"
    by (auto simp: visitors_def split: if_splits)
  then have "reach D parent node = reach_below D node" by (intro reach_own) simp
  with list_c_tracks[OF assms(1,2,3)] assms(5) ListC show ?thesis by simp
next
  case ListItem
  with assms(4) have t: "ntype (props node) = ''listItem''"
    by (auto simp: visitors_def split: if_splits)
  from listItem_tracks[OF assms(1) noroot_kids[OF assms(2)] assms(3)] assms(5) ListItem
  show ?thesis unfolding reach_listItem[OF t] by simp
next
  case Paragraph
  with assms(4) have t: "ntype (props node) = ''paragraph''"
    by (auto simp: visitors_def split: if_splits)
  then have "reach D parent node = reach_below D node" by (intro reach_own) simp
  with paragraph_c_tracks[OF assms(1,2,3)] assms(5) Paragraph show ?thesis by simp
next
  case Heading
  with assms(4) have t: "ntype (props node) = ''heading''"
    by (auto simp: visitors_def split: if_splits)
  then have "reach D parent node = reach_below D node" by (intro reach_own) simp
  with heading_tracks[OF assms(1,2,3)] assms(5) Heading show ?thesis by simp
next
  case Table
  with assms(4) have t: "ntype (props node) = ''table''"
    by (auto simp: visitors_def split: if_splits)
  from table_tracks[OF assms(1,2,3) t] assms(5) Table show ?thesis by simp
next
  case Strong
  with assms(4) have t: "ntype (props node) = ''strong''"
    by (auto simp: visitors_def split: if_splits)
  then have "reach D parent node = reach_below D node" by (intro reach_own) simp
  with inline_wrap_tracks[OF assms(1,2,3)] assms(5) Strong show ?thesis
    by (simp add: strong_def)
next
  case Emphasis
  with assms(4) have t: "ntype (props node) = ''emphasis''"
    by (auto simp: visitors_def split: if_splits)
  then have "reach D parent node = reach_below D node" by (intro reach_own) simp
  with inline_wrap_tracks[OF assms(1,2,3)] assms(5) Emphasis show ?thesis
    by (simp add: emphasis_def)
next
  case Link
  with assms(4) have t: "ntype (props node) = ''link''"
    by (auto simp: visitors_def split: if_splits)
  then have "reach D parent node = reach_below D node" by (intro reach_own) simp
  with link_c_tracks[OF assms(1,2,3)] assms(5) Link show ?thesis by simp
next
  case LinkReference
  with assms(4) have t: "ntype (props node) = ''linkReference''"
    by (auto simp: visitors_def split: if_splits)
  then have "reach D parent node = reach_below D node" by (intro reach_own) simp
  with linkReference_tracks[OF assms(1,2,3)] assms(5) LinkReference show ?thesis by simp
next
  case ImageReference
  with assms(4) have t: "ntype (props node) = ''imageReference''"
    by (auto simp: visitors_def split: if_splits)
  from imageReference_tracks[OF assms(1,2,3)] assms(5) ImageReference
  show ?thesis unfolding reach_imageReference[OF t] by simp
next
  case Strikethrough
  with assms(4) have t: "ntype (props node) = ''delete''"
    by (auto simp: visitors_def split: if_splits)
  then have "reach D parent node = reach_below D node" by (intro reach_own) simp
  with inline_wrap_tracks[OF assms(1,2,3)] assms(5) Strikethrough show ?thesis
    by (simp add: strikethrough_def)
next
  case Ignore
  with assms(4) have "ntype (props node) \<in> set [''yaml'', ''definition'', ''footnoteDefinition'']"
    by (auto simp: visitors_def split: if_splits)
  then have "reach D parent node = []" by (intro reach_leaf) auto
  with assms(5) Ignore show ?thesis by (auto simp: grows_refl)
next
  case Code
  with assms(4) have "ntype (props node) = ''code''"
    by (auto simp: visitors_def split: if_splits)
  then have "reach D parent node = []" by (intro reach_leaf) simp
  with assms(5) Code show ?thesis by (auto simp: grows_refl)
next
  case Html
  with assms(4) have "ntype (props node) = ''html''"
    by (auto simp: visitors_def split: if_splits)
  then have "reach D parent node = []" by (intro reach_leaf) simp
  with assms(5) Html show ?thesis by (auto simp: grows_refl)
next
  case Rule
  with assms(4) have "ntype (props node) = ''horizontalRule''"
    by (auto simp: visitors_def split: if_splits)
  then have "reach D parent node = []" by (intro reach_leaf) simp
  with assms(5) Rule show ?thesis by (auto simp: grows_refl)
next
  case InlineCode
  with assms(4) have "ntype (props node) = ''inlineCode''"
    by (auto simp: visitors_def split: if_splits)
  then have "reach D parent node = []" by (intro reach_leaf) simp
  with assms(5) InlineCode show ?thesis by (auto simp: grows_refl)
next
  case HardBreak
  with assms(4) have "ntype (props node) = ''break''"
    by (auto simp: visitors_def split: if_splits)
  then have "reach D parent node = []" by (intro reach_leaf) simp
  with assms(5) HardBreak show ?thesis by (auto simp: grows_refl)
next
  case Image
  with assms(4) have "ntype (props node) = ''image''"
    by (auto simp: visitors_def split: if_splits)
  then have "reach D parent node = []" by (intro reach_leaf) simp
  with assms(5) Image show ?thesis by (auto simp: grows_refl)
next
  case FootnoteReference
  with assms(4) have "ntype (props node) = ''footnoteReference''"
    by (auto simp: visitors_def split: if_splits)
  then have "reach D parent node = []" by (intro reach_leaf) simp
  with assms(5) FootnoteReference show ?thesis by (auto simp: grows_refl)
next
  case Text
  with assms(4) have "ntype (props node) = ''text''"
    by (auto simp: visitors_def split: if_splits)
  then have "reach D parent node = []" by (intro reach_leaf) simp
  with assms(5) Text show ?thesis by (auto simp: grows_refl)
next
  case Escape
  with assms(4) have "ntype (props node) = ''escape''"
    by (auto simp: visitors_def split: if_splits)
  then have "reach D parent node = []" by (intro reach_leaf) simp
  with assms(5) Escape show ?thesis by (auto simp: grows_refl)
qed

lemma dispatch_tracks:
  assumes "tracks D vis"
  shows "tracks D (dispatch vis cb)"
  unfolding tracks_def
proof (intro allI impI)
  fix n p st v st'
  assume n: "noroot n" and d: "definitions st = D"
    and r: "dispatch vis cb n p st = Inr (v, st')"
  from r obtain c where c: "map_of visitors (ntype (props n)) = Some c" and
    r': "run c vis cb n p st = Inr (v, st')"
    by (auto simp: dispatch_def split: option.splits)
  from run_tracks[OF assms n d c r'] show "grows (reach D p n) st st'" .
qed

lemma visit_tracks: "tracks D (visit k cb)"
proof (induction k)
  case 0
  show ?case by (simp add: tracks_def)
next
  case (Suc k)
  then show ?case by (simp add: dispatch_tracks)
qed

text \<open>The footnote section: the children of every record, under a list item that is not loose.\<close>

lemma backref_reach: "reach_below D (backref i) = []"
  by (simp add: reach_below_def backref_def kids_def reach_leaf)

lemma footnote_item_reach:
  "reach_below D (if single (kids (footnote_item d cs)) empty_object
                  then hd (kids (footnote_item d cs)) else footnote_item d cs)
     = concat (map (reach D empty_object) cs)"
proof (cases "cs = []")
  case True
  then have "single (kids (footnote_item d cs)) empty_object"
    by (simp add: single_def footnote_item_def kids_def empty_object_def blank_def backref_def)
  with True show ?thesis by (simp add: footnote_item_def kids_def backref_reach)
next
  case False
  then have "length (cs @ [backref (ident (props d))]) \<noteq> 1" by (cases cs) simp_all
  then have s: "\<not> single (kids (footnote_item d cs)) empty_object"
    by (simp add: single_def footnote_item_def kids_def)
  have l: "loose (props (footnote_item d cs)) = loose (props empty_object)"
    by (simp add: footnote_item_def empty_object_def blank_def)
  have b: "reach D (footnote_item d cs) (backref (ident (props d))) = []"
  proof -
    have "ntype (props (backref (ident (props d)))) = ''link''"
      by (simp add: backref_def blank_def)
    then have "reach D (footnote_item d cs) (backref (ident (props d)))
                 = reach_below D (backref (ident (props d)))"
      by (intro reach_own) simp
    then show ?thesis by (simp add: backref_reach)
  qed
  have k: "kids (footnote_item d cs) = cs @ [backref (ident (props d))]"
    by (simp add: footnote_item_def kids_def)
  have "reach_below D (footnote_item d cs)
          = concat (map (reach D (footnote_item d cs)) cs)"
    by (simp add: reach_below_def k b)
  also have "reach D (footnote_item d cs) = reach D empty_object"
    by (rule ext) (rule reach_parent[OF l])
  finally show ?thesis using s by simp
qed

lemma generate_loop_tracks:
  assumes "tracks D vis"
  shows "\<forall>d \<in> set defs. \<forall>c \<in> set (kids d). noroot c \<Longrightarrow> definitions st = D \<Longrightarrow>
         generate_loop vis cb defs results st = Inr (r, st') \<Longrightarrow>
         grows (concat (map (\<lambda>d. concat (map (reach D empty_object) (kids d))) defs)) st st'"
proof (induction defs arbitrary: results st)
  case Nil
  then show ?case by (simp add: grows_refl)
next
  case (Cons d defs)
  let ?F = "\<lambda>d. concat (map (reach D empty_object) (kids d))"
  from Cons.prems(3) obtain cs item st1 where
    cs: "children d = Some cs" and
    item: "listItem vis cb (footnote_item d cs) empty_object st = Inr (item, st1)" and
    rest: "generate_loop vis cb defs (results @ [item]) st1 = Inr (r, st')"
    by (auto split: option.splits sum.splits)
  from cs have k: "kids d = cs" by (simp add: kids_def)
  with Cons.prems(1) have "\<forall>c \<in> set cs. noroot c" by simp
  then have "\<forall>c \<in> set (kids (footnote_item d cs)). noroot c"
    by (simp add: footnote_item_def kids_def noroot_backref)
  from listItem_tracks[OF assms this Cons.prems(2) item]
  have g1: "grows (?F d) st st1" unfolding footnote_item_reach k .
  then have d1: "definitions st1 = D" using Cons.prems(2) by (simp add: grows_def)
  from Cons.IH[OF _ d1 rest] Cons.prems(1)
  have g2: "grows (concat (map ?F defs)) st1 st'" by simp
  from grows_trans[OF g1 g2] show ?case by simp
qed

lemma generateFootnotes_tracks:
  assumes "tracks D vis" and "\<forall>d \<in> set (footnotes st). \<forall>c \<in> set (kids d). noroot c"
    and "definitions st = D" and "generateFootnotes vis cb st = Inr (v, st')"
  shows "grows (concat (map (\<lambda>d. concat (map (reach D empty_object) (kids d)))
                          (footnotes st))) st st'"
proof (cases "footnotes st = []")
  case True
  with assms(4) show ?thesis by (simp add: generateFootnotes_def grows_refl)
next
  case False
  with assms(4) obtain results where
    "generate_loop vis cb (footnotes st) [] st = Inr (results, st')"
    by (auto simp: generateFootnotes_def split: sum.splits)
  from generate_loop_tracks[OF assms(1,2,3) this] show ?thesis .
qed

lemma same_children_same_kids:
  assumes "map children xs = map children ys"
  shows "map (\<lambda>d. g (kids d)) xs = map (\<lambda>d. g (kids d)) ys"
proof -
  let ?G = "\<lambda>c. g (case c of None \<Rightarrow> [] | Some cs \<Rightarrow> cs)"
  have "map (\<lambda>d. g (kids d)) xs = map ?G (map children xs)" by (simp add: kids_def o_def)
  also have "\<dots> = map ?G (map children ys)" by (simp only: assms)
  also have "\<dots> = map (\<lambda>d. g (kids d)) ys" by (simp add: kids_def o_def)
  finally show ?thesis .
qed

lemma root_tracks:
  assumes "\<forall>c \<in> set (kids tree). noroot c"
    and "root (visit k cb) cb tree st = Inr (v, st')"
  shows "\<exists>st0. prepass tree = Inr st0 \<and> grows (reached tree) st0 st'"
proof -
  let ?D = "index_of tree"
  let ?F = "\<lambda>d. concat (map (reach ?D empty_object) (kids d))"
  let ?Q = "\<lambda>r. \<forall>c \<in> set (kids r). noroot c"
  from assms(2) obtain st0 result st1 fs where
    p: "prepass tree = Inr st0" and
    a: "all_joined (visit k cb) cb [CHR 0x0A] tree st0 = Inr (result, st1)" and
    g: "generateFootnotes (visit k cb) cb st1 = Inr (fs, st')"
    by (auto simp: root_def split: sum.splits)
  have d0: "definitions st0 = ?D" by (simp add: index_of_def p)
  have f0: "footnotes st0 = collect ''footnoteDefinition'' tree" using p by (rule prepass_footnotes)
  from all_joined_tracks[OF visit_tracks assms(1) d0 a]
  have g1: "grows (reached_in_walk tree) st0 st1" by (simp add: reached_in_walk_def)
  then obtain new where
    f1: "footnotes st1 = footnotes st0 @ new" and
    c1: "map children new = map children (reached_in_walk tree)" and
    d1: "definitions st1 = ?D"
    using d0 by (auto simp: grows_def)
  from all_joined_extends[OF visit_good[OF sound_noroot] assms(1) a]
  obtain new' where "footnotes st1 = footnotes st0 @ new'" and "\<forall>r \<in> set new'. ?Q r"
    by (auto simp: extends_def)
  moreover have "\<forall>r \<in> set (footnotes st0). ?Q r"
    unfolding f0 using assms(1) collect_kids_noroot by blast
  ultimately have q1: "\<forall>d \<in> set (footnotes st1). \<forall>c \<in> set (kids d). noroot c" by auto
  from generateFootnotes_tracks[OF visit_tracks q1 d1 g]
  have g2: "grows (concat (map ?F (footnotes st1))) st1 st'" .
  have "map ?F (footnotes st1) = map ?F (collect ''footnoteDefinition'' tree) @ map ?F new"
    by (simp add: f1 f0)
  also have "map ?F new = map ?F (reached_in_walk tree)"
    using c1 by (rule same_children_same_kids)
  finally have "concat (map ?F (footnotes st1)) = reached_in_section tree"
    by (simp add: reached_in_section_def)
  with g2 have "grows (reached_in_section tree) st1 st'" by simp
  with g1 have "grows (reached tree) st0 st'" unfolding reached_def by (rule grows_trans)
  with p show ?thesis by blast
qed

text \<open>Every node reached is an inline footnote of the tree.\<close>

lemma collect_kids:
  "collect t n = (if ntype (props n) = t then [n] else []) @ concat (map (collect t) (kids n))"
  by (cases n) (simp add: kids_def split: option.splits)

lemma collect_kid_subset: "c \<in> set (kids n) \<Longrightarrow> set (collect t c) \<subseteq> set (collect t n)"
  by (subst (2) collect_kids) auto

lemma collect_within:
  "m \<in> set (collect t n) \<Longrightarrow> set (collect u m) \<subseteq> set (collect u n)"
proof (induction n rule: height.induct)
  case (1 p cs)
  show ?case
  proof (cases "m = Node p cs")
    case True
    then show ?thesis by simp
  next
    case False
    with 1(2) obtain ns c where cs: "cs = Some ns" and c: "c \<in> set ns"
      and m: "m \<in> set (collect t c)"
      by (auto split: if_splits option.splits)
    from "1.IH"[OF cs c m] have "set (collect u m) \<subseteq> set (collect u c)" .
    moreover from cs c have "c \<in> set (kids (Node p cs))" by (simp add: kids_def)
    then have "set (collect u c) \<subseteq> set (collect u (Node p cs))" by (rule collect_kid_subset)
    ultimately show ?thesis by blast
  qed
qed

lemma reach_subset: "set (reach D p n) \<subseteq> set (collect ''footnote'' n)"
proof (induction D p n rule: reach.induct)
  case (1 D p n)
  show ?case
  proof (cases "ntype (props n) = ''footnote''")
    case True
    then show ?thesis by (subst collect_kids) (simp add: reach_footnote)
  next
    case False
    show ?thesis
    proof
      fix x assume "x \<in> set (reach D p n)"
      with False obtain m c where m: "m \<in> set (walked D p n)" and c: "c \<in> set (kids m)"
        and x: "x \<in> set (reach D m c)"
        by (auto simp: reach_walked reach_below_def)
      from "1.IH"[OF False m c] x have xc: "x \<in> set (collect ''footnote'' c)" by blast
      with collect_kid_subset[OF c] have xm: "x \<in> set (collect ''footnote'' m)" by blast
      from walked_cases[OF m] show "x \<in> set (collect ''footnote'' n)"
      proof (elim disjE bexE)
        assume "m = n"
        with xm show ?thesis by simp
      next
        assume "m \<in> set (kids n)"
        from collect_kid_subset[OF this] xm show ?thesis by blast
      next
        fix row assume "row \<in> set (kids n)" and "m \<in> set (kids row)"
        from collect_kid_subset[OF this(1)] collect_kid_subset[OF this(2)] xm
        show ?thesis by blast
      qed
    qed
  qed
qed

lemma reached_in_walk_subset: "set (reached_in_walk tree) \<subseteq> set (collect ''footnote'' tree)"
proof
  fix x assume "x \<in> set (reached_in_walk tree)"
  then obtain c where c: "c \<in> set (kids tree)" and "x \<in> set (reach (index_of tree) tree c)"
    by (auto simp: reached_in_walk_def reach_below_def)
  with reach_subset have "x \<in> set (collect ''footnote'' c)" by blast
  with collect_kid_subset[OF c] show "x \<in> set (collect ''footnote'' tree)" by blast
qed

lemma reached_subset: "set (reached tree) \<subseteq> set (collect ''footnote'' tree)"
proof
  fix x assume "x \<in> set (reached tree)"
  then consider "x \<in> set (reached_in_walk tree)" | "x \<in> set (reached_in_section tree)"
    by (auto simp: reached_def)
  then show "x \<in> set (collect ''footnote'' tree)"
  proof cases
    case 1
    with reached_in_walk_subset show ?thesis by blast
  next
    case 2
    then obtain r c where
      r: "r \<in> set (collect ''footnoteDefinition'' tree) \<or> r \<in> set (reached_in_walk tree)" and
      c: "c \<in> set (kids r)" and x: "x \<in> set (reach (index_of tree) empty_object c)"
      by (auto simp: reached_in_section_def)
    from x reach_subset have "x \<in> set (collect ''footnote'' c)" by blast
    with collect_kid_subset[OF c] have xr: "x \<in> set (collect ''footnote'' r)" by blast
    from r reached_in_walk_subset obtain t where "r \<in> set (collect t tree)" by blast
    from collect_within[OF this] xr show ?thesis by blast
  qed
qed

text \<open>
  C2, as amended: for every tree with its only root at the top, after a compilation that
  returns, the footnote store holds exactly M + R records, where M is the number of
  explicit footnoteDefinition nodes of the tree and R the number of inline footnotes the
  compilation reaches (an inline footnote is reached each time the dispatcher visits it,
  in the walk over the tree or while the footnote section is generated, and every node
  reached is an inline footnote of the tree). The store is the sequence of the explicit
  definitions in document order, followed by one footnote definition record for each
  inline footnote reached, in the order they are reached, with the children of that
  footnote. The identifier of each of these records is the string form of the smallest
  positive integer that is not the identifier of a record in the store at the moment the
  footnote is compiled. When the explicit identifiers are pairwise distinct, all
  identifiers of the store are.
\<close>

theorem footnote_store_after_compile:
  assumes "list_all noroot (kids tree)"
    and "store (compile k cb tree) = Inr rs"
  shows "\<exists>new. rs = collect ''footnoteDefinition'' tree @ new \<and>
           map children new = map children (reached tree) \<and>
           list_all (\<lambda>r. ntype (props r) = ''footnoteDefinition'') new \<and>
           allocated_from (map (\<lambda>d. ident (props d)) (collect ''footnoteDefinition'' tree))
             (map (\<lambda>d. ident (props d)) new) \<and>
           length rs = length (collect ''footnoteDefinition'' tree) + length (reached tree) \<and>
           set (reached tree) \<subseteq> set (collect ''footnote'' tree) \<and>
           (distinct (map (\<lambda>d. ident (props d)) (collect ''footnoteDefinition'' tree)) \<longrightarrow>
              distinct (map (\<lambda>d. ident (props d)) rs))"
proof -
  let ?explicit = "collect ''footnoteDefinition'' tree"
  from assms(2) obtain s st where
    c: "root (visit k cb) cb tree init = Inr (s, st)" and rs: "rs = footnotes st"
    by (auto simp: store_def compile_def split: sum.splits)
  have top: "\<forall>c \<in> set (kids tree). noroot c" using assms(1) by (simp add: list_all_iff)
  from root_tracks[OF top c] obtain st0 where
    p: "prepass tree = Inr st0" and g: "grows (reached tree) st0 st" by blast
  from prepass_footnotes[OF p] have f0: "footnotes st0 = ?explicit" .
  from g obtain new where
    f: "footnotes st = ?explicit @ new" and
    ch: "map children new = map children (reached tree)" and
    k: "list_all (\<lambda>r. ntype (props r) = ''footnoteDefinition'') new" and
    a: "allocated_from (map (\<lambda>d. ident (props d)) ?explicit) (map (\<lambda>d. ident (props d)) new)"
    by (auto simp: grows_def f0 store_ids_def)
  from ch have "length new = length (reached tree)" by (rule map_eq_imp_length_eq)
  then have l: "length rs = length ?explicit + length (reached tree)" by (simp add: rs f)
  have d: "distinct (map (\<lambda>d. ident (props d)) ?explicit) \<longrightarrow>
             distinct (map (\<lambda>d. ident (props d)) rs)"
    using allocated_from_distinct[OF a] by (simp add: rs f)
  from f ch k a l d reached_subset[of tree] show ?thesis unfolding rs by blast
qed

theorem footnote_store_after_compile_witness:
  "list_all noroot (kids footnotes_tree) \<and>
   store (compile 4 cb_spec footnotes_tree) = Inr footnotes_tree_store \<and>
   reached footnotes_tree = collect ''footnote'' footnotes_tree \<and>
   length (reached footnotes_tree) = 2 \<and>
   (\<exists>new. footnotes_tree_store = collect ''footnoteDefinition'' footnotes_tree @ new \<and>
      map children new = map children (reached footnotes_tree) \<and>
      list_all (\<lambda>r. ntype (props r) = ''footnoteDefinition'') new \<and>
      allocated_from
        (map (\<lambda>d. ident (props d)) (collect ''footnoteDefinition'' footnotes_tree))
        (map (\<lambda>d. ident (props d)) new) \<and>
      length footnotes_tree_store
        = length (collect ''footnoteDefinition'' footnotes_tree) +
          length (reached footnotes_tree) \<and>
      set (reached footnotes_tree) \<subseteq> set (collect ''footnote'' footnotes_tree) \<and>
      (distinct (map (\<lambda>d. ident (props d)) (collect ''footnoteDefinition'' footnotes_tree)) \<longrightarrow>
         distinct (map (\<lambda>d. ident (props d)) footnotes_tree_store)))"
proof -
  have n: "list_all noroot (kids footnotes_tree)" by code_simp
  have s: "store (compile 4 cb_spec footnotes_tree) = Inr footnotes_tree_store" by code_simp
  have r: "reached footnotes_tree = collect ''footnote'' footnotes_tree" by code_simp
  have l: "length (reached footnotes_tree) = 2" by code_simp
  from n s r l footnote_store_after_compile[OF n s] show ?thesis by (intro conjI)
qed

text \<open>
  C2, as stated, fails in both of its parts. Two explicit definitions with the same
  identifier are both stored, so the identifiers are not pairwise distinct. And the
  store does not hold N + M records, N being the number of inline footnotes: of three
  inline footnotes nested in one another the second is compiled while the footnote
  section is generated and the third never, which leaves two records; a tight list item
  whose only child is an inline footnote compiles the children of the footnote in its
  place and leaves no record; and an inline footnote in an explicit definition that is
  the only child of a tight list item is compiled with the item and again with the
  footnote section, which leaves three records for one definition and one footnote.
\<close>

theorem footnote_store_counterexample:
  "store_identifiers (compile 3 cb_spec twice_defined) = Inr [Some ''a'', Some ''a''] \<and>
   length (collect ''footnote'' nested_footnotes) = 3 \<and>
   store_identifiers (compile 6 cb_spec nested_footnotes) = Inr [Some ''1'', Some ''2''] \<and>
   length (collect ''footnote'' item_footnote) = 1 \<and>
   store_identifiers (compile 6 cb_spec item_footnote) = Inr [] \<and>
   length (collect ''footnote'' item_definition) = 1 \<and>
   length (collect ''footnoteDefinition'' item_definition) = 1 \<and>
   store_identifiers (compile 6 cb_spec item_definition)
     = Inr [Some ''a'', Some ''1'', Some ''2'']"
  by code_simp
section \<open>The definition index\<close>

lemma toUpperCase_ascii: "ascii s \<Longrightarrow> toUpperCase s = map ascii_upper s"
proof (induction s)
  case Nil
  show ?case by (simp add: toUpperCase_def)
next
  case (Cons c cs)
  then have c: "(of_char c :: int) < 0x80" and cs: "ascii cs" by (simp_all add: ascii_def)
  have w: "utf8_width c = 1" using c by (simp add: utf8_width_def Let_def)
  have u: "upper_chunk [c] = [ascii_upper c]"
    using c by (simp add: upper_chunk_def upper_code_point_def utf8_encode_def ascii_upper_def)
  from Cons.IH[OF cs] show ?case
    by (simp add: toUpperCase_def w u)
qed

lemma of_char_nonneg: "0 \<le> (of_char c :: int)"
proof -
  have "(of_char c :: int) mod 256 = of_char c" by simp
  then show ?thesis by (metis pos_mod_sign zero_less_numeral)
qed

lemma pairs_lower:
  "list_all (\<lambda>(l, u). 97 \<le> (of_char l :: int) \<and> (of_char l :: int) \<le> 122 \<and>
       (of_char u :: int) = of_char l - 32) letter_pairs"
  by code_simp

lemma lower_pairs:
  "list_all (\<lambda>m. (char_of m, char_of (m - 32)) \<in> set letter_pairs) [97..122::int]"
  by code_simp

lemma letter_pairs_iff:
  "(c, d) \<in> set letter_pairs \<longleftrightarrow>
     97 \<le> (of_char c :: int) \<and> (of_char c :: int) \<le> 122 \<and> (of_char d :: int) = of_char c - 32"
proof
  assume "(c, d) \<in> set letter_pairs"
  moreover have "\<forall>p \<in> set letter_pairs. case p of (l, u) \<Rightarrow>
      97 \<le> (of_char l :: int) \<and> (of_char l :: int) \<le> 122 \<and> (of_char u :: int) = of_char l - 32"
    using pairs_lower by (simp only: list_all_iff)
  ultimately show "97 \<le> (of_char c :: int) \<and> (of_char c :: int) \<le> 122 \<and>
      (of_char d :: int) = of_char c - 32"
    by blast
next
  assume a: "97 \<le> (of_char c :: int) \<and> (of_char c :: int) \<le> 122 \<and>
      (of_char d :: int) = of_char c - 32"
  then have "(of_char c :: int) \<in> {97..122}" by simp
  then have "(of_char c :: int) \<in> set [97..122]" by (simp only: set_upto)
  moreover have "\<forall>m \<in> set [97..122::int]. (char_of m, char_of (m - 32)) \<in> set letter_pairs"
    using lower_pairs by (simp only: list_all_iff)
  ultimately have "(char_of (of_char c :: int), char_of ((of_char c :: int) - 32)) \<in> set letter_pairs"
    by blast
  moreover have "char_of ((of_char c :: int) - 32) = d" using a by (metis char_of_char)
  ultimately show "(c, d) \<in> set letter_pairs" by simp
qed

lemma ascii_upper_eq_iff:
  assumes "(of_char c :: int) < 0x80" and "(of_char d :: int) < 0x80"
  shows "ascii_upper c = ascii_upper d \<longleftrightarrow> same_letter c d"
proof -
  let ?f = "\<lambda>m::int. if 97 \<le> m \<and> m \<le> 122 then m - 32 else m"
  let ?m = "of_char c :: int" and ?n = "of_char d :: int"
  have m: "0 \<le> ?m" and n: "0 \<le> ?n" by (rule of_char_nonneg)+
  have "ascii_upper c = ascii_upper d \<longleftrightarrow> (of_char (ascii_upper c) :: int) = of_char (ascii_upper d)" by simp
  also have "\<dots> \<longleftrightarrow> ?f ?m mod 256 = ?f ?n mod 256" by (simp add: ascii_upper_def)
  also have "\<dots> \<longleftrightarrow> ?f ?m = ?f ?n" using m n assms by auto
  also have "\<dots> \<longleftrightarrow> ?m = ?n \<or> (97 \<le> ?m \<and> ?m \<le> 122 \<and> ?n = ?m - 32) \<or>
      (97 \<le> ?n \<and> ?n \<le> 122 \<and> ?m = ?n - 32)"
    by auto
  also have "\<dots> \<longleftrightarrow> same_letter c d"
    by (simp add: same_letter_def letter_pairs_iff)
  finally show ?thesis .
qed

lemma same_up_to_case_iff:
  assumes "ascii a" and "ascii b"
  shows "toUpperCase a = toUpperCase b \<longleftrightarrow> same_up_to_case a b"
proof -
  have "map ascii_upper a = map ascii_upper b \<longleftrightarrow> list_all2 (\<lambda>c d. ascii_upper c = ascii_upper d) a b"
    by (auto simp: list_all2_conv_all_nth list_eq_iff_nth_eq)
  also have "\<dots> \<longleftrightarrow> list_all2 same_letter a b"
    using assms by (auto simp: list_all2_conv_all_nth ascii_def ascii_upper_eq_iff)
  finally show ?thesis
    by (simp add: toUpperCase_ascii[OF assms(1)] toUpperCase_ascii[OF assms(2)] same_up_to_case_def)
qed

lemma find_append:
  "find P (xs @ ys) = (case find P xs of None \<Rightarrow> find P ys | Some x \<Rightarrow> Some x)"
  by (induction xs) auto

lemma index_definitions_find:
  assumes "list_all (\<lambda>d. ident (props d) \<noteq> None) ds"
  shows "\<exists>m'. index_definitions ds m = Inr m' \<and>
           (\<forall>k. m' k = (case find (named (\<lambda>j. toUpperCase j = k)) (rev ds) of
                          None \<Rightarrow> m k
                        | Some d \<Rightarrow> Some d))"
  using assms
proof (induction ds arbitrary: m)
  case Nil
  show ?case by simp
next
  case (Cons d ds)
  then obtain i where i: "ident (props d) = Some i" and
    rest: "list_all (\<lambda>d. ident (props d) \<noteq> None) ds"
    by auto
  from Cons.IH[OF rest, of "m(toUpperCase i \<mapsto> d)"] obtain m' where
    m': "index_definitions ds (m(toUpperCase i \<mapsto> d)) = Inr m'" and
    k: "\<And>k. m' k = (case find (named (\<lambda>j. toUpperCase j = k)) (rev ds) of
                       None \<Rightarrow> (m(toUpperCase i \<mapsto> d)) k
                     | Some d \<Rightarrow> Some d)"
    by blast
  have "\<And>k. m' k = (case find (named (\<lambda>j. toUpperCase j = k)) (rev (d # ds)) of
                       None \<Rightarrow> m k
                     | Some d \<Rightarrow> Some d)"
    by (simp add: k find_append named_def i split: option.splits)
  with m' i show ?case by simp
qed

lemma prepass_index:
  assumes "list_all (\<lambda>d. ident (props d) \<noteq> None) (collect ''definition'' tree)"
  shows "\<exists>st0. prepass tree = Inr st0 \<and>
           (\<forall>k. definitions st0 k =
                  find (named (\<lambda>j. toUpperCase j = k)) (rev (collect ''definition'' tree)))"
proof -
  from index_definitions_find[OF assms, of Map.empty] obtain m' where
    i: "index_definitions (collect ''definition'' tree) Map.empty = Inr m'" and
    k: "\<forall>k. m' k = (case find (named (\<lambda>j. toUpperCase j = k))
                            (rev (collect ''definition'' tree)) of
                       None \<Rightarrow> None
                     | Some d \<Rightarrow> Some d)"
    by blast
  have "\<And>k. m' k = find (named (\<lambda>j. toUpperCase j = k)) (rev (collect ''definition'' tree))"
    by (simp add: k split: option.splits)
  with i show ?thesis by (simp add: prepass_def)
qed

lemma find_named_cong:
  "\<forall>d \<in> set xs. named P d = named Q d \<Longrightarrow> find (named P) xs = find (named Q) xs"
  by (induction xs) auto

lemma visit_keeps_definitions:
  assumes "noroot n" and "visit k cb n p st = Inr (v, st')"
  shows "definitions st' = definitions st"
proof -
  have "good noroot (\<lambda>r. \<forall>c \<in> set (kids r). noroot c) (visit k cb)"
    using sound_noroot by (rule visit_good)
  with assms have "extends (\<lambda>r. \<forall>c \<in> set (kids r). noroot c) st st'"
    unfolding good_def by blast
  then show ?thesis by (simp add: extends_def)
qed

text \<open>
  C5: when every definition node of the tree has an identifier, the root compiler
  builds the definition index without an error, and a linkReference or imageReference
  with an identifier resolves, without an error, to the definition node of the tree,
  the last one in document order, whose upper-cased identifier is the upper-cased
  identifier of the reference, or to the empty object when there is none. For ASCII
  identifiers that is the last definition whose identifier equals the reference's up to
  case: resolution is case-insensitive, an identifier that differs in more than case
  does not resolve, and the later of two definitions that share an identifier up to
  case is the one every reference resolves to. No visit of a node below the root
  changes the index, so every reference of the tree is resolved against the index as
  the root compiler built it.
\<close>

theorem definition_index_resolution:
  assumes "list_all (\<lambda>d. ident (props d) \<noteq> None) (collect ''definition'' tree)"
  shows "(\<exists>st0. prepass tree = Inr st0 \<and>
            (\<forall>node i. ident (props node) = Some i \<longrightarrow>
               resolve st0 node =
                 Inr (last_definition (\<lambda>j. toUpperCase j = toUpperCase i) tree) \<and>
               (ascii i \<and> list_all (named ascii) (collect ''definition'' tree) \<longrightarrow>
                  resolve st0 node = Inr (last_definition (\<lambda>j. same_up_to_case j i) tree)))) \<and>
         (\<forall>n p st k cb. noroot n \<longrightarrow>
            (case visit k cb n p st of
               Inl e \<Rightarrow> True
             | Inr (v, st') \<Rightarrow> definitions st' = definitions st))"
proof (intro conjI allI impI)
  from prepass_index[OF assms] obtain st0 where
    p: "prepass tree = Inr st0" and
    d: "\<And>k. definitions st0 k =
             find (named (\<lambda>j. toUpperCase j = k)) (rev (collect ''definition'' tree))"
    by blast
  have r: "\<And>node i. ident (props node) = Some i \<Longrightarrow>
      resolve st0 node = Inr (last_definition (\<lambda>j. toUpperCase j = toUpperCase i) tree)"
    by (simp add: resolve_def d last_definition_def)
  have a: "\<And>node i. ident (props node) = Some i \<Longrightarrow> ascii i \<Longrightarrow>
      list_all (named ascii) (collect ''definition'' tree) \<Longrightarrow>
      resolve st0 node = Inr (last_definition (\<lambda>j. same_up_to_case j i) tree)"
  proof -
    fix node i
    assume i: "ident (props node) = Some i" and ai: "ascii i"
      and ad: "list_all (named ascii) (collect ''definition'' tree)"
    have "\<forall>d \<in> set (rev (collect ''definition'' tree)).
        named (\<lambda>j. toUpperCase j = toUpperCase i) d = named (\<lambda>j. same_up_to_case j i) d"
    proof
      fix d assume "d \<in> set (rev (collect ''definition'' tree))"
      with ad have "named ascii d" by (simp add: list_all_iff)
      then obtain j where j: "ident (props d) = Some j" and aj: "ascii j"
        by (auto simp: named_def split: option.splits)
      from same_up_to_case_iff[OF aj ai] j
      show "named (\<lambda>j. toUpperCase j = toUpperCase i) d = named (\<lambda>j. same_up_to_case j i) d"
        by (simp add: named_def)
    qed
    then have "find (named (\<lambda>j. toUpperCase j = toUpperCase i)) (rev (collect ''definition'' tree))
        = find (named (\<lambda>j. same_up_to_case j i)) (rev (collect ''definition'' tree))"
      by (rule find_named_cong)
    with r[OF i] show "resolve st0 node = Inr (last_definition (\<lambda>j. same_up_to_case j i) tree)"
      by (simp add: last_definition_def)
  qed
  from p r a show "\<exists>st0. prepass tree = Inr st0 \<and>
            (\<forall>node i. ident (props node) = Some i \<longrightarrow>
               resolve st0 node =
                 Inr (last_definition (\<lambda>j. toUpperCase j = toUpperCase i) tree) \<and>
               (ascii i \<and> list_all (named ascii) (collect ''definition'' tree) \<longrightarrow>
                  resolve st0 node = Inr (last_definition (\<lambda>j. same_up_to_case j i) tree)))"
    by blast
next
  fix n p st k cb
  assume "noroot n"
  then show "case visit k cb n p st of
               Inl e \<Rightarrow> True
             | Inr (v, st') \<Rightarrow> definitions st' = definitions st"
    by (auto split: sum.splits dest: visit_keeps_definitions)
qed

theorem definition_index_resolution_witness:
  \<open>(\<exists>st0. prepass two_definitions = Inr st0 \<and>
      resolve st0 (ref_node ''linkReference'' ''Foo'' ''full'' [leaf ''text'' ''x''])
        = Inr (def_node ''FOO'' ''http://b'') \<and>
      resolve st0 (ref_node ''imageReference'' ''bar'' ''full'' []) = Inr empty_object) \<and>
   output_of (compile 3 cb_spec two_definitions)
     = Inr ''<p><a href="http://b">x</a></p>\<newline><blockquote>\<newline></blockquote>\<newline>'' \<and>
   output_of (compile 3 cb_spec accent_tree) = Inr ''<p><a href="http://e">x</a></p>\<newline>''\<close>
proof -
  have h: "list_all (\<lambda>d. ident (props d) \<noteq> None) (collect ''definition'' two_definitions)"
    by code_simp
  have a: "list_all (named ascii) (collect ''definition'' two_definitions)" by code_simp
  have f: "ascii ''Foo''" and b: "ascii ''bar''" by code_simp+
  have i: "ident (props (ref_node ''linkReference'' ''Foo'' ''full'' [leaf ''text'' ''x''])) = Some ''Foo''"
    and j: "ident (props (ref_node ''imageReference'' ''bar'' ''full'' [])) = Some ''bar''"
    by (simp_all add: ref_node_def)
  have lf: "last_definition (\<lambda>j. same_up_to_case j ''Foo'') two_definitions
      = def_node ''FOO'' ''http://b''"
    by code_simp
  have lb: "last_definition (\<lambda>j. same_up_to_case j ''bar'') two_definitions = empty_object"
    by code_simp
  have c: \<open>output_of (compile 3 cb_spec two_definitions)
     = Inr ''<p><a href="http://b">x</a></p>\<newline><blockquote>\<newline></blockquote>\<newline>''\<close>
    by code_simp
  have e: \<open>output_of (compile 3 cb_spec accent_tree) = Inr ''<p><a href="http://e">x</a></p>\<newline>''\<close>
    by code_simp
  from definition_index_resolution[OF h, THEN conjunct1] obtain st0 where
    p: "prepass two_definitions = Inr st0" and
    r: "\<And>node i. ident (props node) = Some i \<Longrightarrow> ascii i \<Longrightarrow>
          resolve st0 node = Inr (last_definition (\<lambda>j. same_up_to_case j i) two_definitions)"
    using a by blast
  from p r[OF i f] r[OF j b] lf lb c e show ?thesis by (simp only:) blast
qed

section \<open>Trees that compile\<close>

lemma height_pos: "0 < height n"
  by (cases n) simp

lemma kids_Some: "children n = Some cs \<Longrightarrow> kids n = cs"
  by (simp add: kids_def)

text \<open>A node that is valid under a parent that is not loose is valid under any parent.\<close>

lemma valid_tight: "valid r False n \<Longrightarrow> valid r l n"
  by (cases n; cases r) (auto split: if_splits)

lemma valid_inner: "valid r (inner p) n \<Longrightarrow> valid r (loose p) n"
  by (cases "inner p") (auto simp: inner_def intro: valid_tight)

lemma valid_node_kids:
  "valid AsNode l n \<Longrightarrow> ntype (props n) \<noteq> ''table'' \<Longrightarrow> c \<in> set (kids n) \<Longrightarrow>
     valid AsNode (inner (props n)) c"
  by (cases n) (auto simp: kids_def split: option.splits)

lemma valid_table_kids:
  "valid AsNode l n \<Longrightarrow> ntype (props n) = ''table'' \<Longrightarrow>
     \<exists>rows al. children n = Some rows \<and> align (props n) = Some al \<and>
       (\<forall>r \<in> set rows. valid AsRow (inner (props n)) r)"
  by (cases n) (auto split: option.splits)

lemma valid_row_kids:
  "valid AsRow l n \<Longrightarrow>
     \<exists>cells. children n = Some cells \<and> (\<forall>c \<in> set cells. valid AsCell (inner (props n)) c)"
  by (cases n) (auto split: option.splits)

lemma valid_cell_kids:
  "valid AsCell l n \<Longrightarrow>
     \<exists>gs. children n = Some gs \<and> (\<forall>g \<in> set gs. valid AsNode (inner (props n)) g)"
  by (cases n) (auto split: option.splits)

lemma valid_container:
  "valid AsNode l n \<Longrightarrow> ntype (props n) \<in> set container_kinds \<Longrightarrow> \<exists>cs. children n = Some cs"
  by (cases n) (auto simp: container_kinds_def split: if_splits)

lemma valid_identified:
  "valid AsNode l n \<Longrightarrow> ntype (props n) \<in> set identified_kinds \<Longrightarrow>
     \<exists>i. ident (props n) = Some i"
  by (cases n) (auto simp: identified_kinds_def split: if_splits)

lemma valid_registered:
  "valid AsNode l n \<Longrightarrow> \<exists>c. map_of visitors (ntype (props n)) = Some c \<and> c \<noteq> Root"
proof (cases n)
  case (Node p cs)
  assume v: "valid AsNode l n"
  show ?thesis
  proof (cases "ntype p = ''table''")
    case True
    then have "map_of visitors (ntype p) = Some Table" by (simp add: visitors_def)
    with Node show ?thesis by simp
  next
    case False
    with v Node obtain c where c: "map_of visitors (ntype p) = Some c" and "ntype p \<noteq> ''root''"
      by auto
    then have "c \<noteq> Root" using visitors_root by blast
    with c Node show ?thesis by simp
  qed
qed

lemma valid_role_not_root: "valid r l n \<Longrightarrow> ntype (props n) \<noteq> ''root''"
  by (cases n; cases r) (auto split: if_splits)

lemma valid_role_kids: "valid r l n \<Longrightarrow> c \<in> set (kids n) \<Longrightarrow> \<exists>r' l'. valid r' l' c"
  by (cases n; cases r) (auto simp: kids_def split: if_splits option.splits)

text \<open>
  The children of a footnote or of a footnote definition, in whatever role the node
  is, are valid under a parent that is not loose.
\<close>

lemma valid_record_children:
  "valid r l n \<Longrightarrow> ntype (props n) = ''footnote'' \<or> ntype (props n) = ''footnoteDefinition'' \<Longrightarrow>
     \<exists>cs. children n = Some cs \<and> (\<forall>c \<in> set cs. valid AsNode False c)"
  by (cases n; cases r)
     (auto simp: inner_def container_kinds_def split: if_splits option.splits)

lemma valid_definition_identifier:
  "valid r l n \<Longrightarrow> ntype (props n) = ''definition'' \<Longrightarrow> ident (props n) \<noteq> None"
  by (cases n; cases r) (auto simp: identified_kinds_def split: if_splits)

lemma all_loop_succeeds:
  assumes "succeeds k vis"
  shows "\<forall>n \<in> set ns. valid AsNode (loose (props parent)) n \<and> height n \<le> k \<Longrightarrow>
         \<exists>r st'. all_loop vis cb parent prev ns vals st = Inr (r, st')"
proof (induction ns arbitrary: prev vals st)
  case Nil
  show ?case by simp
next
  case (Cons n ns)
  then have "valid AsNode (loose (props parent)) n" and "height n \<le> k" by simp_all
  with assms obtain v st1 where v: "vis n parent st = Inr (v, st1)"
    unfolding succeeds_def by blast
  from Cons.prems have "\<forall>n \<in> set ns. valid AsNode (loose (props parent)) n \<and> height n \<le> k"
    by simp
  from Cons.IH[OF this] show ?case by (simp add: v)
qed

lemma all_joined_succeeds:
  assumes "succeeds k vis" and "children parent = Some ns"
    and "\<forall>n \<in> set ns. valid AsNode (loose (props parent)) n \<and> height n \<le> k"
  shows "\<exists>s st'. all_joined vis cb sep parent st = Inr (s, st')"
proof -
  from all_loop_succeeds[OF assms(1,3)] obtain r st' where
    "all_loop vis cb parent None ns [] st = Inr (r, st')" by blast
  then show ?thesis by (simp add: all_joined_def all_nodes_def assms(2))
qed

text \<open>
  A valid node that is not a table, below the budget: its children, when it has a
  child sequence, can all be visited.
\<close>

lemma children_joined_succeeds:
  assumes "succeeds k vis" and "valid AsNode l node" and "height node \<le> Suc k"
    and "ntype (props node) \<noteq> ''table''" and "children node = Some cs"
  shows "\<exists>s st'. all_joined vis cb sep node st = Inr (s, st')"
proof -
  have "\<forall>n \<in> set cs. valid AsNode (loose (props node)) n \<and> height n \<le> k"
  proof
    fix n assume "n \<in> set cs"
    then have n: "n \<in> set (kids node)" by (simp add: kids_Some[OF assms(5)])
    from valid_inner[OF valid_node_kids[OF assms(2,4) n]] height_kids[OF n] assms(3)
    show "valid AsNode (loose (props node)) n \<and> height n \<le> k" by simp
  qed
  from all_joined_succeeds[OF assms(1,5) this] show ?thesis .
qed

lemma container_joined_succeeds:
  assumes "succeeds k vis" and "valid AsNode l node" and "height node \<le> Suc k"
    and "ntype (props node) \<in> set container_kinds"
  shows "\<exists>s st'. all_joined vis cb sep node st = Inr (s, st')"
proof -
  from valid_container[OF assms(2,4)] obtain cs where cs: "children node = Some cs" by blast
  have nt: "ntype (props node) \<noteq> ''table''" using assms(4) by (auto simp: container_kinds_def)
  from children_joined_succeeds[OF assms(1,2,3) nt cs] show ?thesis .
qed

lemma listItem_succeeds:
  assumes "succeeds k vis" and "valid AsNode (loose (props parent)) node"
    and "height node \<le> Suc k" and "ntype (props node) = ''listItem''"
  shows "\<exists>v st'. listItem vis cb node parent st = Inr (v, st')"
proof -
  have ck: "ntype (props node) \<in> set container_kinds"
    using assms(4) by (simp add: container_kinds_def)
  from valid_container[OF assms(2) ck] obtain cs where cs: "children node = Some cs" by blast
  show ?thesis
  proof (cases "single cs parent")
    case False
    from container_joined_succeeds[OF assms(1,2,3) ck] obtain s st' where
      "all_joined vis cb [CHR 0x0A] node st = Inr (s, st')" by blast
    then show ?thesis by (simp add: listItem_not_single[OF cs False])
  next
    case True
    then obtain c gs where c: "cs = [c]" and gs: "children c = Some gs"
      and tight: "\<not> loose (props parent)"
      by (auto simp: single_iff)
    have kid: "c \<in> set (kids node)" by (simp add: kids_Some[OF cs] c)
    have nt: "ntype (props node) \<noteq> ''table''" using assms(4) by simp
    have vc: "valid AsNode (inner (props node)) c" using valid_node_kids[OF assms(2) nt kid] .
    have hc: "height c \<le> Suc k" using height_kids[OF kid] assms(3) by simp
    have "\<exists>s st'. all_joined vis cb [] c st = Inr (s, st')"
    proof (cases "ntype (props c) = ''table''")
      case False
      from children_joined_succeeds[OF assms(1) vc hc False gs] show ?thesis .
    next
      case True
      with assms(2,4) cs c tight have "children c = Some []" by (cases node) auto
      then show ?thesis by (simp add: all_joined_def all_nodes_def)
    qed
    then obtain s st' where "all_joined vis cb [] c st = Inr (s, st')" by blast
    then show ?thesis by (simp add: listItem_single[OF cs True] c)
  qed
qed

lemma failsafe_succeeds:
  assumes "succeeds k vis" and "valid AsNode l node" and "height node \<le> Suc k"
    and "ntype (props node) \<noteq> ''table''"
  shows "\<exists>f st'. failsafe vis cb node def st = Inr (f, st')"
proof (cases "referenceType (props node) = ''shortcut'' \<and> \<not> truthy (link (props def))")
  case False
  then show ?thesis by (auto simp: failsafe_def)
next
  case True
  show ?thesis
  proof (cases "children node")
    case None
    with True show ?thesis by (simp add: failsafe_def)
  next
    case (Some cs)
    from children_joined_succeeds[OF assms Some] obtain s st' where
      "all_joined vis cb [] node st = Inr (s, st')" by blast
    with True Some show ?thesis by (simp add: failsafe_def)
  qed
qed

lemma linkReference_succeeds:
  assumes "succeeds k vis" and "valid AsNode l node" and "height node \<le> Suc k"
    and "ntype (props node) = ''linkReference''"
  shows "\<exists>v st'. linkReference vis cb node st = Inr (v, st')"
proof -
  have nt: "ntype (props node) \<noteq> ''table''" using assms(4) by simp
  have ck: "ntype (props node) \<in> set container_kinds"
    using assms(4) by (simp add: container_kinds_def)
  have "ntype (props node) \<in> set identified_kinds"
    using assms(4) by (simp add: identified_kinds_def)
  from valid_identified[OF assms(2) this] obtain def where d: "resolve st node = Inr def"
    by (auto simp: resolve_def)
  from failsafe_succeeds[OF assms(1,2,3) nt] obtain f st1 where
    f: "failsafe vis cb node def st = Inr (f, st1)" by blast
  from container_joined_succeeds[OF assms(1,2,3) ck] obtain s st2 where
    "all_joined vis cb [] node st1 = Inr (s, st2)" by blast
  with d f show ?thesis by (simp add: linkReference_def)
qed

lemma imageReference_succeeds:
  assumes "succeeds k vis" and "valid AsNode l node" and "height node \<le> Suc k"
    and "ntype (props node) = ''imageReference''"
  shows "\<exists>v st'. imageReference vis cb node st = Inr (v, st')"
proof -
  have nt: "ntype (props node) \<noteq> ''table''" using assms(4) by simp
  have "ntype (props node) \<in> set identified_kinds"
    using assms(4) by (simp add: identified_kinds_def)
  from valid_identified[OF assms(2) this] obtain def where d: "resolve st node = Inr def"
    by (auto simp: resolve_def)
  from failsafe_succeeds[OF assms(1,2,3) nt] obtain f st1 where
    f: "failsafe vis cb node def st = Inr (f, st1)" by blast
  with d show ?thesis by (simp add: imageReference_def)
qed

lemma cells_loop_succeeds:
  assumes "succeeds k vis"
    and "\<forall>c \<in> set cells. \<exists>gs. children c = Some gs \<and>
           (\<forall>g \<in> set gs. valid AsNode (loose (props c)) g \<and> height g \<le> k)"
  shows "\<exists>r st'. cells_loop vis cb al name (Some cells) pos out st = Inr (r, st')"
proof (induction pos arbitrary: out st)
  case 0
  show ?case by simp
next
  case (Suc pos)
  let ?cell = "if pos < length cells then Some (cells ! pos) else None"
  have "\<exists>content st1. (case ?cell of None \<Rightarrow> Inr ([], st)
          | Some c \<Rightarrow> all_joined vis cb [CHR 0x0A] c st) = Inr (content, st1)"
  proof (cases "pos < length cells")
    case True
    with assms(2) obtain gs where gs: "children (cells ! pos) = Some gs"
      and v: "\<forall>g \<in> set gs. valid AsNode (loose (props (cells ! pos))) g \<and> height g \<le> k"
      using nth_mem by blast
    from all_joined_succeeds[OF assms(1) gs v] True show ?thesis by simp
  next
    case False
    then show ?thesis by simp
  qed
  then obtain content st1 where
    step: "(case ?cell of None \<Rightarrow> Inr ([], st)
          | Some c \<Rightarrow> all_joined vis cb [CHR 0x0A] c st) = Inr (content, st1)" by blast
  from Suc.IH obtain r st' where
    "cells_loop vis cb al name (Some cells) pos
       (js_set out pos (h cb ?cell name
          (Attrs [(''align'', if pos < length al then al ! pos else ANull)])
          (Str content) Absent)) st1 = Inr (r, st')" by blast
  with step show ?case by (simp add: Let_def)
qed

lemma rows_loop_succeeds:
  assumes "succeeds k vis"
    and "\<forall>r \<in> set rows. \<exists>cells. children r = Some cells \<and>
           (\<forall>c \<in> set cells. \<exists>gs. children c = Some gs \<and>
              (\<forall>g \<in> set gs. valid AsNode (loose (props c)) g \<and> height g \<le> k))"
  shows "index \<le> length rows \<Longrightarrow>
         \<exists>r st'. rows_loop vis cb al rows index result st = Inr (r, st')"
proof (induction index arbitrary: result st)
  case 0
  show ?case by simp
next
  case (Suc index)
  then have "rows ! index \<in> set rows" by simp
  with assms(2) obtain cells where cells: "children (rows ! index) = Some cells"
    and c: "\<forall>c \<in> set cells. \<exists>gs. children c = Some gs \<and>
              (\<forall>g \<in> set gs. valid AsNode (loose (props c)) g \<and> height g \<le> k)"
    by blast
  from cells_loop_succeeds[OF assms(1) c] obtain out st1 where
    o: "cells_loop vis cb al (if index = 0 then ''th'' else ''td'') (Some cells) (length al) [] st
          = Inr (out, st1)" by blast
  from Suc.prems have "index \<le> length rows" by simp
  from Suc.IH[OF this] obtain r st' where
    "rows_loop vis cb al rows index
       (js_set result index
          (h cb (Some (rows ! index)) ''tr'' (Str (js_join [CHR 0x0A] out)) (Flag True) Absent))
       st1 = Inr (r, st')" by blast
  with o cells show ?case by simp
qed

lemma table_succeeds:
  assumes "succeeds k vis" and "valid AsNode l node" and "height node \<le> Suc k"
    and "ntype (props node) = ''table''"
  shows "\<exists>v st'. table vis cb node st = Inr (v, st')"
proof -
  from valid_table_kids[OF assms(2,4)] obtain rows al where
    rows: "children node = Some rows" and al: "align (props node) = Some al" and
    vr: "\<forall>r \<in> set rows. valid AsRow (inner (props node)) r" by blast
  have "\<forall>r \<in> set rows. \<exists>cells. children r = Some cells \<and>
           (\<forall>c \<in> set cells. \<exists>gs. children c = Some gs \<and>
              (\<forall>g \<in> set gs. valid AsNode (loose (props c)) g \<and> height g \<le> k))"
  proof
    fix r assume r: "r \<in> set rows"
    with vr have "valid AsRow (inner (props node)) r" by simp
    from valid_row_kids[OF this] obtain cells where
      cells: "children r = Some cells" and vc: "\<forall>c \<in> set cells. valid AsCell (inner (props r)) c"
      by blast
    from r have hr: "height r < height node" by (intro height_kids) (simp add: kids_Some[OF rows])
    have "\<forall>c \<in> set cells. \<exists>gs. children c = Some gs \<and>
              (\<forall>g \<in> set gs. valid AsNode (loose (props c)) g \<and> height g \<le> k)"
    proof
      fix c assume c: "c \<in> set cells"
      with vc have "valid AsCell (inner (props r)) c" by simp
      from valid_cell_kids[OF this] obtain gs where
        gs: "children c = Some gs" and vg: "\<forall>g \<in> set gs. valid AsNode (inner (props c)) g"
        by blast
      from c have hc: "height c < height r" by (intro height_kids) (simp add: kids_Some[OF cells])
      have "\<forall>g \<in> set gs. valid AsNode (loose (props c)) g \<and> height g \<le> k"
      proof
        fix g assume g: "g \<in> set gs"
        then have "height g < height c" by (intro height_kids) (simp add: kids_Some[OF gs])
        with hc hr assms(3) vg g show "valid AsNode (loose (props c)) g \<and> height g \<le> k"
          by (simp add: valid_inner)
      qed
      with gs show "\<exists>gs. children c = Some gs \<and>
              (\<forall>g \<in> set gs. valid AsNode (loose (props c)) g \<and> height g \<le> k)" by blast
    qed
    with cells show "\<exists>cells. children r = Some cells \<and>
           (\<forall>c \<in> set cells. \<exists>gs. children c = Some gs \<and>
              (\<forall>g \<in> set gs. valid AsNode (loose (props c)) g \<and> height g \<le> k))" by blast
  qed
  from rows_loop_succeeds[OF assms(1) this, of "length rows"] obtain r st' where
    "rows_loop vis cb al rows (length rows) [] st = Inr (r, st')" by blast
  with rows al show ?thesis by (simp add: table_def)
qed

lemma joined_compilers_succeed:
  assumes "\<And>sep. \<exists>s st'. all_joined vis cb sep node st = Inr (s, st')"
  shows "\<exists>v st'. blockquote vis cb node st = Inr (v, st')"
    and "\<exists>v st'. list_c vis cb node st = Inr (v, st')"
    and "\<exists>v st'. paragraph_c vis cb node st = Inr (v, st')"
    and "\<exists>v st'. heading vis cb node st = Inr (v, st')"
    and "\<exists>v st'. inline_wrap tag vis cb node st = Inr (v, st')"
    and "\<exists>v st'. link_c vis cb node st = Inr (v, st')"
proof -
  from assms[of "[CHR 0x0A]"] show "\<exists>v st'. blockquote vis cb node st = Inr (v, st')"
    by (auto simp: blockquote_def)
  from assms[of "[CHR 0x0A]"] show "\<exists>v st'. list_c vis cb node st = Inr (v, st')"
    by (auto simp: list_c_def)
  from assms[of "[]"] show "\<exists>v st'. paragraph_c vis cb node st = Inr (v, st')"
    by (auto simp: paragraph_c_def)
  from assms[of "[]"] show "\<exists>v st'. heading vis cb node st = Inr (v, st')"
    by (auto simp: heading_def)
  from assms[of "[]"] show "\<exists>v st'. inline_wrap tag vis cb node st = Inr (v, st')"
    by (auto simp: inline_wrap_def)
  from assms[of "[]"] show "\<exists>v st'. link_c vis cb node st = Inr (v, st')"
    by (auto simp: link_c_def)
qed

lemma run_succeeds:
  assumes "succeeds k vis" and "valid AsNode (loose (props parent)) node"
    and "height node \<le> Suc k"
    and "map_of visitors (ntype (props node)) = Some c"
  shows "\<exists>v st'. run c vis cb node parent st = Inr (v, st')"
proof (cases c)
  case Footnote
  then show ?thesis by (simp add: footnote_def Let_def)
next
  case Root
  with assms(4) have "ntype (props node) = ''root''" by (simp add: visitors_root)
  with assms(2) show ?thesis using valid_role_not_root by blast
next
  case Blockquote
  with assms(4) have t: "ntype (props node) = ''blockquote''"
    by (auto simp: visitors_def split: if_splits)
  then have ck: "ntype (props node) \<in> set container_kinds" by (simp add: container_kinds_def)
  from joined_compilers_succeed(1)[of vis cb node st, OF container_joined_succeeds[OF assms(1,2,3) ck]]
  show ?thesis by (simp add: Blockquote)
next
  case ListC
  with assms(4) have t: "ntype (props node) = ''list''"
    by (auto simp: visitors_def split: if_splits)
  then have ck: "ntype (props node) \<in> set container_kinds" by (simp add: container_kinds_def)
  from joined_compilers_succeed(2)[of vis cb node st, OF container_joined_succeeds[OF assms(1,2,3) ck]]
  show ?thesis by (simp add: ListC)
next
  case ListItem
  with assms(4) have t: "ntype (props node) = ''listItem''"
    by (auto simp: visitors_def split: if_splits)
  from listItem_succeeds[OF assms(1,2,3) this] ListItem show ?thesis by simp
next
  case Paragraph
  with assms(4) have t: "ntype (props node) = ''paragraph''"
    by (auto simp: visitors_def split: if_splits)
  then have ck: "ntype (props node) \<in> set container_kinds" by (simp add: container_kinds_def)
  from joined_compilers_succeed(3)[of vis cb node st, OF container_joined_succeeds[OF assms(1,2,3) ck]]
  show ?thesis by (simp add: Paragraph)
next
  case Heading
  with assms(4) have t: "ntype (props node) = ''heading''"
    by (auto simp: visitors_def split: if_splits)
  then have ck: "ntype (props node) \<in> set container_kinds" by (simp add: container_kinds_def)
  from joined_compilers_succeed(4)[of vis cb node st, OF container_joined_succeeds[OF assms(1,2,3) ck]]
  show ?thesis by (simp add: Heading)
next
  case Table
  with assms(4) have t: "ntype (props node) = ''table''"
    by (auto simp: visitors_def split: if_splits)
  from table_succeeds[OF assms(1,2,3) this] Table show ?thesis by simp
next
  case Strong
  with assms(4) have t: "ntype (props node) = ''strong''"
    by (auto simp: visitors_def split: if_splits)
  then have ck: "ntype (props node) \<in> set container_kinds" by (simp add: container_kinds_def)
  from joined_compilers_succeed(5)[of vis cb node st, OF container_joined_succeeds[OF assms(1,2,3) ck]]
  show ?thesis by (simp add: Strong strong_def)
next
  case Emphasis
  with assms(4) have t: "ntype (props node) = ''emphasis''"
    by (auto simp: visitors_def split: if_splits)
  then have ck: "ntype (props node) \<in> set container_kinds" by (simp add: container_kinds_def)
  from joined_compilers_succeed(5)[of vis cb node st, OF container_joined_succeeds[OF assms(1,2,3) ck]]
  show ?thesis by (simp add: Emphasis emphasis_def)
next
  case Link
  with assms(4) have t: "ntype (props node) = ''link''"
    by (auto simp: visitors_def split: if_splits)
  then have ck: "ntype (props node) \<in> set container_kinds" by (simp add: container_kinds_def)
  from joined_compilers_succeed(6)[of vis cb node st, OF container_joined_succeeds[OF assms(1,2,3) ck]]
  show ?thesis by (simp add: Link)
next
  case LinkReference
  with assms(4) have t: "ntype (props node) = ''linkReference''"
    by (auto simp: visitors_def split: if_splits)
  from linkReference_succeeds[OF assms(1,2,3) this] LinkReference show ?thesis by simp
next
  case ImageReference
  with assms(4) have t: "ntype (props node) = ''imageReference''"
    by (auto simp: visitors_def split: if_splits)
  from imageReference_succeeds[OF assms(1,2,3) this] ImageReference show ?thesis by simp
next
  case Strikethrough
  with assms(4) have t: "ntype (props node) = ''delete''"
    by (auto simp: visitors_def split: if_splits)
  then have ck: "ntype (props node) \<in> set container_kinds" by (simp add: container_kinds_def)
  from joined_compilers_succeed(5)[of vis cb node st, OF container_joined_succeeds[OF assms(1,2,3) ck]]
  show ?thesis by (simp add: Strikethrough strikethrough_def)
qed simp_all

lemma dispatch_succeeds:
  assumes "succeeds k vis"
  shows "succeeds (Suc k) (dispatch vis cb)"
  unfolding succeeds_def
proof (intro allI impI)
  fix n p st
  assume v: "valid AsNode (loose (props p)) n" and h: "height n \<le> Suc k"
  from valid_registered[OF v] obtain c where c: "map_of visitors (ntype (props n)) = Some c"
    by blast
  from run_succeeds[OF assms v h c] show "\<exists>v st'. dispatch vis cb n p st = Inr (v, st')"
    by (simp add: dispatch_def c)
qed

lemma visit_succeeds: "succeeds k (visit k cb)"
proof (induction k)
  case 0
  show ?case using height_pos by (auto simp: succeeds_def)
next
  case (Suc k)
  then show ?case by (simp add: dispatch_succeeds)
qed

lemma valid_backref: "valid AsNode l (backref i)"
  by (simp add: backref_def blank_def visitors_def container_kinds_def identified_kinds_def
        inner_def)

lemma height_backref: "height (backref i) = 2"
  by (simp add: backref_def)

lemma sound_valid: "2 \<le> k \<Longrightarrow> sound (valid_below k) (valid_record k)"
  unfolding sound_def
proof (intro conjI allI impI)
  fix n assume n: "valid_below k n"
  then show "ntype (props n) \<noteq> ''root''"
    using valid_role_not_root by (auto simp: valid_below_def)
  show "\<forall>c \<in> set (kids n). valid_below k c"
  proof
    fix c assume c: "c \<in> set (kids n)"
    from n obtain r l where "valid r l n" by (auto simp: valid_below_def)
    from valid_role_kids[OF this c] height_kids[OF c] n show "valid_below k c"
      by (auto simp: valid_below_def)
  qed
next
  fix n p assume n: "valid_below k n \<and> ntype (props n) = ''footnote''"
  then obtain r l where "valid r l n" by (auto simp: valid_below_def)
  from valid_record_children[OF this] n obtain cs where
    cs: "children n = Some cs" and v: "\<forall>c \<in> set cs. valid AsNode False c" by blast
  have "\<forall>c \<in> set cs. valid AsNode False c \<and> height c \<le> k"
  proof
    fix c assume c: "c \<in> set cs"
    then have "c \<in> set (kids n)" by (simp add: kids_Some[OF cs])
    from height_kids[OF this] n v c show "valid AsNode False c \<and> height c \<le> k"
      by (simp add: valid_below_def)
  qed
  then show "valid_record k (Node p (children n))" by (simp add: valid_record_def cs)
next
  fix r assume "valid_record k r"
  then show "\<forall>c \<in> set (kids r). valid_below k c"
    by (auto simp: valid_record_def valid_below_def kids_def split: option.splits)
next
  fix i assume "2 \<le> k"
  then show "valid_below k (backref i)"
    using valid_backref[of _ i] by (auto simp: valid_below_def height_backref)
qed

lemma footnote_item_succeeds:
  assumes "succeeds k vis" and "2 \<le> k" and "valid_record k d" and "children d = Some cs"
  shows "\<exists>v st'. listItem vis cb (footnote_item d cs) empty_object st = Inr (v, st')"
proof -
  let ?b = "backref (ident (props d))"
  let ?t = "Node (blank\<lparr>ntype := ''text'', nvalue := Some [CHR 0xE2, CHR 0x86, CHR 0xA9]\<rparr>) None"
  have c: "children (footnote_item d cs) = Some (cs @ [?b])" by (simp add: footnote_item_def)
  have li: "\<not> loose (props (footnote_item d cs))" by (simp add: footnote_item_def blank_def)
  have vb: "valid AsNode False ?b \<and> height ?b \<le> k"
    using assms(2) by (simp add: valid_backref height_backref)
  have vcs: "\<forall>c \<in> set cs. valid AsNode False c \<and> height c \<le> k"
    using assms(3,4) by (simp add: valid_record_def)
  show ?thesis
  proof (cases "cs = []")
    case True
    have bc: "children ?b = Some [?t]" by (simp add: backref_def)
    have "\<forall>n \<in> set [?t]. valid AsNode (loose (props ?b)) n \<and> height n \<le> k"
      using assms(2)
      by (simp add: blank_def visitors_def container_kinds_def identified_kinds_def)
    from all_joined_succeeds[OF assms(1) bc this] obtain v st' where
      "all_joined vis cb [] ?b st = Inr (v, st')" by blast
    with True show ?thesis by (simp add: footnote_item_listItem)
  next
    case False
    have "\<forall>n \<in> set (cs @ [?b]). valid AsNode (loose (props (footnote_item d cs))) n \<and> height n \<le> k"
      using vb vcs li by simp
    from all_joined_succeeds[OF assms(1) c this] obtain v st' where
      "all_joined vis cb [CHR 0x0A] (footnote_item d cs) st = Inr (v, st')" by blast
    with False show ?thesis by (simp add: footnote_item_listItem)
  qed
qed

lemma generate_loop_succeeds:
  assumes "succeeds k vis" and "2 \<le> k"
  shows "\<forall>d \<in> set defs. valid_record k d \<Longrightarrow>
         \<exists>r st'. generate_loop vis cb defs results st = Inr (r, st')"
proof (induction defs arbitrary: results st)
  case Nil
  show ?case by simp
next
  case (Cons d defs)
  then have vd: "valid_record k d" by simp
  then obtain cs where cs: "children d = Some cs"
    by (auto simp: valid_record_def split: option.splits)
  from footnote_item_succeeds[OF assms vd cs] obtain v st1 where
    i: "listItem vis cb (footnote_item d cs) empty_object st = Inr (v, st1)" by blast
  from Cons.prems have "\<forall>d \<in> set defs. valid_record k d" by simp
  from Cons.IH[OF this] obtain r st' where
    "generate_loop vis cb defs (results @ [v]) st1 = Inr (r, st')" by blast
  with cs i show ?case by simp
qed

lemma generateFootnotes_succeeds:
  assumes "succeeds k vis" and "2 \<le> k" and "\<forall>d \<in> set (footnotes st). valid_record k d"
  shows "\<exists>v st'. generateFootnotes vis cb st = Inr (v, st')"
proof (cases "footnotes st = []")
  case True
  then show ?thesis by (simp add: generateFootnotes_def)
next
  case False
  from generate_loop_succeeds[OF assms(1,2,3)] obtain r st' where
    "generate_loop vis cb (footnotes st) [] st = Inr (r, st')" by blast
  with False show ?thesis by (simp add: generateFootnotes_def)
qed

lemma collect_kind: "m \<in> set (collect t n) \<Longrightarrow> ntype (props m) = t"
  by (induction t n rule: collect.induct) (auto split: if_splits option.splits)

lemma collect_valid:
  "valid r l n \<Longrightarrow> m \<in> set (collect t n) \<Longrightarrow> (\<exists>r' l'. valid r' l' m) \<and> height m \<le> height n"
proof (induction t n arbitrary: r l rule: collect.induct)
  case (1 t p cs)
  show ?case
  proof (cases "m = Node p cs")
    case True
    with 1(2) show ?thesis by blast
  next
    case False
    with 1(3) obtain ns c where cs: "cs = Some ns" and c: "c \<in> set ns" and m: "m \<in> set (collect t c)"
      by (auto split: if_splits option.splits)
    have ck: "c \<in> set (kids (Node p cs))" using cs c by (simp add: kids_def)
    from valid_role_kids[OF 1(2) ck] obtain r' l' where "valid r' l' c" by blast
    from "1.IH"[OF cs c this m] height_kids[OF ck] show ?thesis by auto
  qed
qed

text \<open>What the scans of a valid tree find lies below the children of the root.\<close>

lemma collect_below_root:
  assumes "valid_tree tree" and "height tree \<le> Suc k" and "d \<in> set (collect t tree)"
    and "t \<noteq> ''root''"
  shows "(\<exists>r l. valid r l d) \<and> height d \<le> k"
proof -
  obtain p cs where tree: "tree = Node p cs" by (cases tree)
  from assms(1) tree obtain ns where ns: "cs = Some ns"
    and v: "\<forall>n \<in> set ns. valid AsNode (inner p) n" and root: "ntype p = ''root''"
    by (auto simp: valid_tree_def list_all_iff split: option.splits)
  from assms(3,4) tree ns root obtain c where c: "c \<in> set ns" and d: "d \<in> set (collect t c)"
    by (auto split: if_splits)
  from c have "c \<in> set (kids tree)" by (simp add: kids_def tree ns)
  from height_kids[OF this] assms(2) have "height c \<le> k" by simp
  moreover from v c have "valid AsNode (inner p) c" by simp
  from collect_valid[OF this d] have "(\<exists>r l. valid r l d) \<and> height d \<le> height c" .
  ultimately show ?thesis by auto
qed

lemma explicit_records_valid:
  assumes "valid_tree tree" and "height tree \<le> Suc k"
    and "d \<in> set (collect ''footnoteDefinition'' tree)"
  shows "valid_record k d"
proof -
  from collect_below_root[OF assms] obtain r l where r: "valid r l d" and h: "height d \<le> k"
    by auto
  have "ntype (props d) = ''footnoteDefinition''" using assms(3) by (rule collect_kind)
  with valid_record_children[OF r] obtain cs where
    cs: "children d = Some cs" and v: "\<forall>c \<in> set cs. valid AsNode False c" by blast
  have "\<forall>c \<in> set cs. valid AsNode False c \<and> height c \<le> k"
  proof
    fix c assume c: "c \<in> set cs"
    then have "c \<in> set (kids d)" by (simp add: kids_Some[OF cs])
    from height_kids[OF this] h v c show "valid AsNode False c \<and> height c \<le> k" by simp
  qed
  then show ?thesis by (simp add: valid_record_def cs)
qed

lemma prepass_succeeds:
  assumes "valid_tree tree"
  shows "\<exists>st0. prepass tree = Inr st0"
proof -
  have "list_all (\<lambda>d. ident (props d) \<noteq> None) (collect ''definition'' tree)"
    unfolding list_all_iff
  proof
    fix d assume d: "d \<in> set (collect ''definition'' tree)"
    from collect_below_root[OF assms _ d, of "height tree"] obtain r l where "valid r l d"
      by auto
    moreover have "ntype (props d) = ''definition''" using d by (rule collect_kind)
    ultimately show "ident (props d) \<noteq> None" by (rule valid_definition_identifier)
  qed
  from prepass_index[OF this] show ?thesis by blast
qed

lemma root_succeeds:
  assumes "valid_tree tree" and "height tree \<le> Suc k" and "2 \<le> k"
  shows "\<exists>s st'. root (visit k cb) cb tree st = Inr (s, st')"
proof -
  from prepass_succeeds[OF assms(1)] obtain st0 where p: "prepass tree = Inr st0" by blast
  from assms(1) obtain ns where ns: "children tree = Some ns"
    and v: "\<forall>n \<in> set ns. valid AsNode (inner (props tree)) n"
    by (auto simp: valid_tree_def list_all_iff split: option.splits)
  have vk: "\<forall>n \<in> set ns. valid AsNode (loose (props tree)) n \<and> height n \<le> k"
  proof
    fix n assume n: "n \<in> set ns"
    then have "n \<in> set (kids tree)" by (simp add: kids_Some[OF ns])
    from height_kids[OF this] assms(2) v n
    show "valid AsNode (loose (props tree)) n \<and> height n \<le> k" by (simp add: valid_inner)
  qed
  from all_joined_succeeds[OF visit_succeeds ns vk] obtain result st1 where
    a: "all_joined (visit k cb) cb [CHR 0x0A] tree st0 = Inr (result, st1)" by blast
  have snd: "sound (valid_below k) (valid_record k)" using assms(3) by (rule sound_valid)
  have g: "good (valid_below k) (valid_record k) (visit k cb)" using snd by (rule visit_good)
  have "\<forall>n \<in> set (kids tree). valid_below k n"
    using vk by (auto simp: kids_Some[OF ns] valid_below_def)
  from all_joined_extends[OF g this a] obtain new where
    f: "footnotes st1 = footnotes st0 @ new" and q: "\<forall>r \<in> set new. valid_record k r"
    by (auto simp: extends_def)
  have "\<forall>d \<in> set (footnotes st1). valid_record k d"
    using explicit_records_valid[OF assms(1,2)] q by (auto simp: f prepass_footnotes[OF p])
  from generateFootnotes_succeeds[OF visit_succeeds assms(3) this] obtain fs st2 where
    "generateFootnotes (visit k cb) cb st1 = Inr (fs, st2)" by blast
  with p a show ?thesis by (simp add: root_def)
qed

text \<open>
  C1, as stated, fails: the compiler of horizontal rules is registered under the kind
  \<open>horizontalRule\<close>, and no compiler is registered under \<open>rule\<close>, the kind the data
  model lists; a tree with a \<open>rule\<close> node makes the dispatcher raise. So does a list
  item of a list that is not loose whose only child is a table: the tight unwrap rule
  sends the rows of the table, of the documented kind \<open>tableRow\<close>, to the dispatcher.
\<close>

theorem unsupported_rule_counterexample:
  "output_of (compile 3 cb_spec (parent_node ''root'' [leaf ''rule'' []]))
     = Inl (UnsupportedNode ''rule'') \<and>
   output_of (compile 5 cb_spec
      (parent_node ''root'' [parent_node ''list'' [parent_node ''listItem'' [tbl]]]))
     = Inl (UnsupportedNode ''tableRow'')"
  by code_simp

text \<open>
  C1, as amended: for every structurally valid tree of the kinds that have a registered
  compiler, compilation succeeds, for every recursion budget above the height of the
  tree and whatever the collaborators return: the dispatcher finds a compiler for every
  node it visits and no error is raised. The tree is a root with a child sequence; every
  node below it is of a documented kind other than root, with \<open>horizontalRule\<close> where
  the data model says \<open>rule\<close>; a node of a kind whose compiler reads the child
  sequence has one; a definition, a linkReference and an imageReference have an
  identifier; a table has an alignment list and rows of kind \<open>tableRow\<close>, each with a
  child sequence of cells, a cell being any node but a root with a child sequence; and
  no list item under a parent that is not loose has as its only child a table with
  rows.
\<close>

theorem valid_tree_compiles:
  assumes "valid_tree tree" and "height tree < k"
  shows "\<exists>s. output_of (compile k cb tree) = Inr s"
proof -
  from assms(2) height_pos[of tree] have "height tree \<le> Suc k" and "2 \<le> k" by simp_all
  from root_succeeds[OF assms(1) this] obtain s st' where
    "root (visit k cb) cb tree init = Inr (s, st')"
    by blast
  then show ?thesis by (simp add: compile_def output_of_def)
qed

theorem valid_tree_compiles_witness:
  \<open>valid_tree sample_document \<and> height sample_document < 6 \<and>
   (\<exists>s. output_of (compile 6 cb_spec sample_document) = Inr s) \<and>
   output_of (compile 6 cb_spec sample_document) =
     Inr (''<h2>Title</h2>\<newline><p>a<br>\<newline>b<sup id="fnref-1"><a href="#fn-1" class="footnote-ref">1</a></sup></p>\<newline><hr>\<newline><ol start="3">\<newline><li>foo</li>\<newline></ol>\<newline><table>\<newline><thead>\<newline><tr>\<newline><th align="left">a</th>\<newline><th align="right">b</th>\<newline></tr>\<newline></thead>\<newline><tbody>\<newline><tr>\<newline><td align="left">c</td>\<newline><td align="right"></td>\<newline></tr>\<newline></tbody>\<newline></table>\<newline><pre><code class="language-js">x\<newline></code></pre>\<newline><div class="footnotes">\<newline><hr>\<newline><ol>\<newline><li id="fn-1">\<newline>note\<newline><a href="#fnref-1" class="footnote-backref">'' @
          [CHR 0xE2, CHR 0x86, CHR 0xA9] @ ''</a>\<newline></li>\<newline></ol>\<newline></div>\<newline>'') \<and>
   valid_tree loose_item_table \<and> height loose_item_table < 8 \<and>
   (\<exists>s. output_of (compile 8 cb_spec loose_item_table) = Inr s) \<and>
   output_of (compile 8 cb_spec loose_item_table) =
     Inr ''<ul>\<newline><li>\<newline><table>\<newline><thead>\<newline><tr>\<newline><th align="left">a</th>\<newline></tr>\<newline></thead>\<newline><tbody>\<newline></tbody>\<newline></table>\<newline></li>\<newline></ul>\<newline>''\<close>
proof -
  have v: "valid_tree sample_document" by code_simp
  have h: "height sample_document < 6" by code_simp
  have e: \<open>output_of (compile 6 cb_spec sample_document) =
     Inr (''<h2>Title</h2>\<newline><p>a<br>\<newline>b<sup id="fnref-1"><a href="#fn-1" class="footnote-ref">1</a></sup></p>\<newline><hr>\<newline><ol start="3">\<newline><li>foo</li>\<newline></ol>\<newline><table>\<newline><thead>\<newline><tr>\<newline><th align="left">a</th>\<newline><th align="right">b</th>\<newline></tr>\<newline></thead>\<newline><tbody>\<newline><tr>\<newline><td align="left">c</td>\<newline><td align="right"></td>\<newline></tr>\<newline></tbody>\<newline></table>\<newline><pre><code class="language-js">x\<newline></code></pre>\<newline><div class="footnotes">\<newline><hr>\<newline><ol>\<newline><li id="fn-1">\<newline>note\<newline><a href="#fnref-1" class="footnote-backref">'' @
          [CHR 0xE2, CHR 0x86, CHR 0xA9] @ ''</a>\<newline></li>\<newline></ol>\<newline></div>\<newline>'')\<close>
    by code_simp
  have v': "valid_tree loose_item_table" by code_simp
  have h': "height loose_item_table < 8" by code_simp
  have e': \<open>output_of (compile 8 cb_spec loose_item_table) =
     Inr ''<ul>\<newline><li>\<newline><table>\<newline><thead>\<newline><tr>\<newline><th align="left">a</th>\<newline></tr>\<newline></thead>\<newline><tbody>\<newline></tbody>\<newline></table>\<newline></li>\<newline></ul>\<newline>''\<close>
    by code_simp
  from v h valid_tree_compiles[OF v h, of cb_spec] e
    v' h' valid_tree_compiles[OF v' h', of cb_spec] e'
  show ?thesis by (intro conjI)
qed

end
